theory Spec2Isabelle
  imports Main "HOL-Library.Sublist" "HOL-Library.Monad_Syntax"
begin

section \<open>Text: characters, whitespace, splitting\<close>

text \<open>
  The script \<^verbatim>\<open>scripts/extract-opcodes.py\<close> works on Python \<^verbatim>\<open>str\<close> values.
  A text is modelled as a \<^typ>\<open>string\<close>; a \<^typ>\<open>char\<close> stands for the code point
  with the same number, so the model covers texts whose code points are below 256.
  The pattern is a \<^verbatim>\<open>str\<close> pattern compiled without flags, so the classes
  \<^verbatim>\<open>\s\<close>, \<^verbatim>\<open>\d\<close> and \<^verbatim>\<open>\w\<close> are the Unicode ones; the three predicates below are
  these classes on the code points 0 to 255. \<^verbatim>\<open>str.strip()\<close> without argument removes
  the same whitespace characters as \<^verbatim>\<open>\s\<close> matches.
\<close>

definition is_space :: "char \<Rightarrow> bool" where
  "is_space c \<longleftrightarrow>
     (9 \<le> (of_char c :: nat) \<and> (of_char c :: nat) \<le> 13) \<or>
     (28 \<le> (of_char c :: nat) \<and> (of_char c :: nat) \<le> 32) \<or>
     (of_char c :: nat) = 133 \<or> (of_char c :: nat) = 160"

definition is_digit :: "char \<Rightarrow> bool" where
  "is_digit c \<longleftrightarrow> 48 \<le> (of_char c :: nat) \<and> (of_char c :: nat) \<le> 57"

definition is_word :: "char \<Rightarrow> bool" where
  "is_word c \<longleftrightarrow>
     (48 \<le> (of_char c :: nat) \<and> (of_char c :: nat) \<le> 57) \<or>
     (65 \<le> (of_char c :: nat) \<and> (of_char c :: nat) \<le> 90) \<or>
     (of_char c :: nat) = 95 \<or>
     (97 \<le> (of_char c :: nat) \<and> (of_char c :: nat) \<le> 122) \<or>
     (of_char c :: nat) = 170 \<or>
     (178 \<le> (of_char c :: nat) \<and> (of_char c :: nat) \<le> 179) \<or>
     (of_char c :: nat) = 181 \<or>
     (185 \<le> (of_char c :: nat) \<and> (of_char c :: nat) \<le> 186) \<or>
     (188 \<le> (of_char c :: nat) \<and> (of_char c :: nat) \<le> 190) \<or>
     (192 \<le> (of_char c :: nat) \<and> (of_char c :: nat) \<le> 214) \<or>
     (216 \<le> (of_char c :: nat) \<and> (of_char c :: nat) \<le> 246) \<or>
     248 \<le> (of_char c :: nat)"

definition TAB :: char where
  "TAB = CHR 0x09"

definition NL :: char where
  "NL = CHR 0x0A"

text \<open>\<^verbatim>\<open>line.strip()\<close>: whitespace is removed at both ends.\<close>

definition strip :: "string \<Rightarrow> string" where
  "strip s = rev (dropWhile is_space (rev (dropWhile is_space s)))"

text \<open>
  \<^verbatim>\<open>s.split(sep)\<close> for a one-character separator: the pieces between the
  separators, empty pieces kept; the empty text gives one empty piece.
\<close>

fun split_on :: "char \<Rightarrow> string \<Rightarrow> string list" where
  "split_on sep [] = [[]]"
| "split_on sep (x # xs) =
     (if x = sep then [] # split_on sep xs
      else (case split_on sep xs of
              [] \<Rightarrow> [[x]]
            | y # ys \<Rightarrow> (x # y) # ys))"

section \<open>Regular expressions with backtracking\<close>

text \<open>
  The constructs the script's pattern uses. An atom matches one character:
  a literal character, \<^verbatim>\<open>\w\<close>, \<^verbatim>\<open>\d\<close> or \<^verbatim>\<open>\s\<close>. The greedy repetitions
  \<^verbatim>\<open>*\<close>, \<^verbatim>\<open>+\<close> and \<^verbatim>\<open>?\<close> occur in the pattern on atoms only.
  \<open>Group n r\<close> is the capturing group number \<open>n\<close>.
\<close>

datatype atom = Chr char | Word | Digit | Space

datatype rx =
    One atom
  | Star atom
  | Plus atom
  | Opt atom
  | Lit string
  | Alt rx rx
  | Seq "rx list"
  | Group nat rx

fun am :: "atom \<Rightarrow> char \<Rightarrow> bool" where
  "am (Chr k) c \<longleftrightarrow> c = k"
| "am Word c \<longleftrightarrow> is_word c"
| "am Digit c \<longleftrightarrow> is_digit c"
| "am Space c \<longleftrightarrow> is_space c"

text \<open>
  The remainders a greedy \<^verbatim>\<open>*\<close> can leave, in the order the backtracking matcher
  tries them: the longest run first, then one character less each time.
\<close>

fun star :: "(char \<Rightarrow> bool) \<Rightarrow> string \<Rightarrow> string list" where
  "star p [] = [[]]"
| "star p (x # xs) = (if p x then star p xs @ [x # xs] else [x # xs])"

type_synonym caps = "nat \<Rightarrow> string option"

text \<open>
  \<open>ms r (s, c)\<close> lists every way \<open>r\<close> can match at the start of \<open>s\<close>, in the order
  the backtracking matcher of \<^verbatim>\<open>re\<close> explores them; each result is the unread rest
  of the text with the groups captured so far.
\<close>

fun ms :: "rx \<Rightarrow> string \<times> caps \<Rightarrow> (string \<times> caps) list"
  and ms_seq :: "rx list \<Rightarrow> string \<times> caps \<Rightarrow> (string \<times> caps) list" where
  "ms (One a) (s, c) =
     (case s of [] \<Rightarrow> [] | x # xs \<Rightarrow> if am a x then [(xs, c)] else [])"
| "ms (Star a) (s, c) = map (\<lambda>t. (t, c)) (star (am a) s)"
| "ms (Plus a) (s, c) =
     (case s of [] \<Rightarrow> []
      | x # xs \<Rightarrow> if am a x then map (\<lambda>t. (t, c)) (star (am a) xs) else [])"
| "ms (Opt a) (s, c) =
     (case s of [] \<Rightarrow> [(s, c)]
      | x # xs \<Rightarrow> if am a x then [(xs, c), (s, c)] else [(s, c)])"
| "ms (Lit t) (s, c) = (if prefix t s then [(drop (length t) s, c)] else [])"
| "ms (Alt a b) st = ms a st @ ms b st"
| "ms (Seq rs) st = ms_seq rs st"
| "ms (Group n r) (s, c) =
     map (\<lambda>(t, c'). (t, c'(n \<mapsto> take (length s - length t) s))) (ms r (s, c))"
| "ms_seq [] st = [st]"
| "ms_seq (r # rs) st = concat (map (ms_seq rs) (ms r st))"

text \<open>
  \<^verbatim>\<open>re.match(pattern, line)\<close>: the match starts at the first character of the line and
  need not reach its end; the result is the first success, or \<^verbatim>\<open>None\<close>.
\<close>

definition first_success :: "'a list \<Rightarrow> 'a option" where
  "first_success xs = (case xs of [] \<Rightarrow> None | x # _ \<Rightarrow> Some x)"

definition re_match :: "rx \<Rightarrow> string \<Rightarrow> caps option" where
  "re_match p s = map_option snd (first_success (ms p (s, Map.empty)))"

text \<open>\<^verbatim>\<open>m.groups()\<close> for a pattern with \<open>n\<close> groups; a group that took no part is \<^verbatim>\<open>None\<close>.\<close>

definition groups :: "nat \<Rightarrow> caps \<Rightarrow> string option list" where
  "groups n c = map c [1..<Suc n]"

text \<open>
  The pattern of the script:
  \<^verbatim>\<open>(?:DEF|def)\s*\(\s*(\w+)\s*,\s*(\d+)\s*,\s*(-?\d+)\s*,\s*(-?\d+)\s*,\s*(\w+)\<close>
\<close>

definition pattern :: rx where
  "pattern = Seq
     [Alt (Lit ''DEF'') (Lit ''def''), Star Space, One (Chr (CHR ''('')), Star Space,
      Group 1 (Plus Word), Star Space, One (Chr (CHR '','')), Star Space,
      Group 2 (Plus Digit), Star Space, One (Chr (CHR '','')), Star Space,
      Group 3 (Seq [Opt (Chr (CHR ''-'')), Plus Digit]), Star Space, One (Chr (CHR '','')), Star Space,
      Group 4 (Seq [Opt (Chr (CHR ''-'')), Plus Digit]), Star Space, One (Chr (CHR '','')), Star Space,
      Group 5 (Plus Word)]"

section \<open>Formatting\<close>

definition digit_char :: "nat \<Rightarrow> char" where
  "digit_char d = ''0123456789ABCDEF'' ! d"

text \<open>\<^verbatim>\<open>{idx}\<close>: the decimal digits of a non-negative integer.\<close>

fun fmt_d :: "nat \<Rightarrow> string" where
  "fmt_d n = (if n < 10 then [digit_char n] else fmt_d (n div 10) @ [digit_char (n mod 10)])"

text \<open>\<^verbatim>\<open>{idx:X}\<close>: the uppercase hexadecimal digits.\<close>

fun fmt_X :: "nat \<Rightarrow> string" where
  "fmt_X n = (if n < 16 then [digit_char n] else fmt_X (n div 16) @ [digit_char (n mod 16)])"

declare fmt_d.simps [simp del] fmt_X.simps [simp del]

text \<open>\<^verbatim>\<open>{idx:02X}\<close>: zero-padded on the left to a width of at least two.\<close>

definition fmt_02X :: "nat \<Rightarrow> string" where
  "fmt_02X n = replicate (2 - length (fmt_X n)) (CHR ''0'') @ fmt_X n"

text \<open>A value interpolated into an f-string; \<^verbatim>\<open>None\<close> prints as its name.\<close>

fun py_str :: "string option \<Rightarrow> string" where
  "py_str None = ''None''"
| "py_str (Some s) = s"

text \<open>The f-string of the \<^verbatim>\<open>print\<close> call.\<close>

definition format_record ::
  "nat \<Rightarrow> string option \<Rightarrow> string option \<Rightarrow> string option \<Rightarrow> string option \<Rightarrow> string option \<Rightarrow> string" where
  "format_record idx name size' npop npush fmt =
     fmt_d idx @ [TAB] @ ''0x'' @ fmt_02X idx @ [TAB] @ ''OP_'' @ py_str name @ [TAB] @
     ''size='' @ py_str size' @ [TAB] @ ''pop='' @ py_str npop @ [TAB] @
     ''push='' @ py_str npush @ [TAB] @ ''fmt='' @ py_str fmt"

section \<open>The script\<close>

text \<open>
  The state of the loop: the counter \<^verbatim>\<open>idx\<close> and what has been written to the standard
  output, one entry for each \<^verbatim>\<open>print\<close> call that returned (the text of the call;
  \<^verbatim>\<open>print\<close> ends it with a newline).
\<close>

record state =
  idx :: nat
  stdout :: "string list"

datatype error = InputError | UnpackError | OutputError

text \<open>
  The standard output is part of the environment: \<^verbatim>\<open>print\<close> raises when the stream
  refuses the text (\<^verbatim>\<open>UnicodeEncodeError\<close> when the stream's encoding cannot encode a
  character, \<^verbatim>\<open>OSError\<close> when the write fails). A sink says, for what has been written
  so far and the text of a \<^verbatim>\<open>print\<close> call, whether the call returns.
\<close>

type_synonym sink = "string list \<Rightarrow> string \<Rightarrow> bool"

text \<open>
  The body of the \<^verbatim>\<open>for\<close> loop. Unpacking \<^verbatim>\<open>m.groups()\<close> into five names raises
  when the tuple does not have five entries. The f-string is built, \<^verbatim>\<open>print\<close> writes it
  or raises, and only after \<^verbatim>\<open>print\<close> has returned is the counter advanced.
\<close>

definition body_on :: "sink \<Rightarrow> state \<Rightarrow> string \<Rightarrow> error + state" where
  "body_on snk st line0 =
     (let line = strip line0 in
      case re_match pattern line of
        None \<Rightarrow> Inr st
      | Some m \<Rightarrow>
          (case groups 5 m of
             [name, size', npop, npush, fmt] \<Rightarrow>
               if snk (stdout st) (format_record (idx st) name size' npop npush fmt)
               then Inr \<lparr>idx = idx st + 1,
                    stdout = stdout st @ [format_record (idx st) name size' npop npush fmt]\<rparr>
               else Inl OutputError
           | _ \<Rightarrow> Inl UnpackError))"

text \<open>The \<^verbatim>\<open>for\<close> loop: an error ends the run, what was printed before stays printed.\<close>

fun for_loop_on :: "sink \<Rightarrow> state \<Rightarrow> string list \<Rightarrow> state \<times> error option" where
  "for_loop_on snk st [] = (st, None)"
| "for_loop_on snk st (l # ls) =
     (case body_on snk st l of
        Inl e \<Rightarrow> (st, Some e)
      | Inr st' \<Rightarrow> for_loop_on snk st' ls)"

text \<open>
  The whole script. Its input is what \<^verbatim>\<open>open\<close> and \<^verbatim>\<open>f.read()\<close> give: \<open>None\<close> when
  the file cannot be opened or read (the exception ends the run before anything is
  printed), the text of the file otherwise. The result is the standard output and the
  error that ended the run, if any.
\<close>

definition script_on :: "sink \<Rightarrow> string option \<Rightarrow> string list \<times> error option" where
  "script_on snk src =
     (case src of
        None \<Rightarrow> ([], Some InputError)
      | Some lines \<Rightarrow>
          (case for_loop_on snk \<lparr>idx = 0, stdout = []\<rparr> (split_on NL lines) of
             (st, e) \<Rightarrow> (stdout st, e)))"

text \<open>
  Two sinks: a standard output that takes every write (a terminal or a file with a
  UTF-8 encoding and room to write), and one whose encoding is ASCII, where a text with
  a code point of 128 or more makes \<^verbatim>\<open>print\<close> raise.
\<close>

definition accept_all :: sink where
  "accept_all out r \<longleftrightarrow> True"


text \<open>
  The loop body, the loop and the script on a standard output that takes every write.
  What is stated of them below is stated of runs in which no \<^verbatim>\<open>print\<close> call raises.
\<close>

definition body :: "state \<Rightarrow> string \<Rightarrow> error + state" where
  "body = body_on accept_all"

definition for_loop :: "state \<Rightarrow> string list \<Rightarrow> state \<times> error option" where
  "for_loop = for_loop_on accept_all"

definition script :: "string option \<Rightarrow> string list \<times> error option" where
  "script = script_on accept_all"

section \<open>The grammar of the specification\<close>

text \<open>
  The matching grammar as the specification words it: a line, after its leading and
  trailing whitespace is stripped, has the shape
  \<^verbatim>\<open><macro-token> ( <identifier> , <integer> , <signed-integer> , <signed-integer> , <identifier> ...rest\<close>
  where the macro token is the uppercase or the lowercase literal, an identifier is a
  bare word, an integer is an unsigned decimal literal, a signed integer is a decimal
  literal with an optional minus sign, and whitespace may stand between the tokens.
  \<open>macro_grammar\<close> reads a stripped line from left to right and gives the five fields
  and the rest of the line, or \<open>None\<close> when the line does not have the shape.
\<close>

definition skip_ws :: "string \<Rightarrow> string" where
  "skip_ws s = dropWhile is_space s"

definition macro_token :: "string \<Rightarrow> string option" where
  "macro_token s = (if prefix ''DEF'' s \<or> prefix ''def'' s then Some (drop 3 s) else None)"

definition expect :: "char \<Rightarrow> string \<Rightarrow> string option" where
  "expect k s = (case s of [] \<Rightarrow> None | x # xs \<Rightarrow> if x = k then Some xs else None)"

definition many1 :: "(char \<Rightarrow> bool) \<Rightarrow> string \<Rightarrow> (string \<times> string) option" where
  "many1 p s = (if takeWhile p s = [] then None else Some (takeWhile p s, dropWhile p s))"

definition bare_word :: "string \<Rightarrow> (string \<times> string) option" where
  "bare_word s = many1 is_word s"

definition unsigned_integer :: "string \<Rightarrow> (string \<times> string) option" where
  "unsigned_integer s = many1 is_digit s"

definition signed_integer :: "string \<Rightarrow> (string \<times> string) option" where
  "signed_integer s =
     (case s of
        [] \<Rightarrow> None
      | x # xs \<Rightarrow>
          if x = CHR ''-'' then map_option (\<lambda>(d, r). (x # d, r)) (unsigned_integer xs)
          else unsigned_integer s)"

definition macro_grammar ::
  "string \<Rightarrow> (string \<times> string \<times> string \<times> string \<times> string \<times> string) option" where
  "macro_grammar s0 = do {
     s1 \<leftarrow> macro_token s0;
     s2 \<leftarrow> expect (CHR ''('') (skip_ws s1);
     (name, s3) \<leftarrow> bare_word (skip_ws s2);
     s4 \<leftarrow> expect (CHR '','') (skip_ws s3);
     (size', s5) \<leftarrow> unsigned_integer (skip_ws s4);
     s6 \<leftarrow> expect (CHR '','') (skip_ws s5);
     (npop, s7) \<leftarrow> signed_integer (skip_ws s6);
     s8 \<leftarrow> expect (CHR '','') (skip_ws s7);
     (npush, s9) \<leftarrow> signed_integer (skip_ws s8);
     s10 \<leftarrow> expect (CHR '','') (skip_ws s9);
     (fmt, rest) \<leftarrow> bare_word (skip_ws s10);
     Some (name, size', npop, npush, fmt, rest)
   }"

section \<open>Observing the script\<close>

text \<open>The test \<^verbatim>\<open>if m\<close> of the loop body: the stripped line matches the pattern.\<close>

definition matches :: "string \<Rightarrow> bool" where
  "matches line0 \<longleftrightarrow> re_match pattern (strip line0) \<noteq> None"

text \<open>The tab-separated fields of an output record.\<close>

definition fields :: "string \<Rightarrow> string list" where
  "fields r = split_on TAB r"

text \<open>
  The line the loop body prints for a matching line at counter \<open>i\<close>, read off the
  grammar; the empty text when the line does not match.
\<close>

definition record_of :: "nat \<Rightarrow> string \<Rightarrow> string" where
  "record_of i line0 =
     (case macro_grammar (strip line0) of
        None \<Rightarrow> []
      | Some (name, size', npop, npush, fmt, rest) \<Rightarrow>
          format_record i (Some name) (Some size') (Some npop) (Some npush) (Some fmt))"

text \<open>Reading a rendered number back: the value of a digit and of a digit string.\<close>

definition digit_val :: "char \<Rightarrow> nat" where
  "digit_val c = (if is_digit c then of_char c - 48 else of_char c - 55)"

definition read_nat :: "nat \<Rightarrow> string \<Rightarrow> nat" where
  "read_nat b s = foldl (\<lambda>a c. a * b + digit_val c) 0 s"


text \<open>The case variants of the macro token other than the two the pattern names.\<close>

definition mixed_case_tokens :: "string list" where
  "mixed_case_tokens = [''Def'', ''dEf'', ''deF'', ''DEf'', ''DeF'', ''dEF'']"

section \<open>The pattern and the grammar agree\<close>

subsection \<open>Character classes\<close>

lemma space_not_word: "is_space x \<Longrightarrow> \<not> is_word x"
  by (auto simp: is_space_def is_word_def)

lemma space_not_digit: "is_space x \<Longrightarrow> \<not> is_digit x"
  by (auto simp: is_space_def is_digit_def)

lemma digit_word: "is_digit x \<Longrightarrow> is_word x"
  by (auto simp: is_digit_def is_word_def)

lemma lit_classes:
  "\<not> is_space (CHR ''('')" "\<not> is_space (CHR '','')" "\<not> is_space (CHR ''-'')"
  "\<not> is_word (CHR '','')" "\<not> is_digit (CHR '','')" "\<not> is_digit (CHR ''-'')" "\<not> is_word (CHR ''-'')"
  "\<not> is_word (CHR ''('')"
  by (simp_all add: is_space_def is_word_def is_digit_def)

lemma am_eta: "am Digit = is_digit" "am Word = is_word" "am Space = is_space"
  by (rule ext, simp)+

lemma star_skip:
  assumes "\<forall>x xs. p x \<longrightarrow> K (x # xs, c) = []"
  shows "concat (map K (map (\<lambda>t. (t, c)) (star p s))) = K (dropWhile p s, c)"
  using assms by (induction s) auto

lemma seq_star:
  assumes "\<forall>x xs. am a x \<longrightarrow> ms_seq rs (x # xs, c) = []"
  shows "ms_seq (Star a # rs) (s, c) = ms_seq rs (dropWhile (am a) s, c)"
  using star_skip [of "am a" "ms_seq rs" c s] assms by simp

lemma seq_one:
  "ms_seq (One (Chr k) # rs) (s, c) = (case expect k s of None \<Rightarrow> [] | Some t \<Rightarrow> ms_seq rs (t, c))"
  by (simp add: expect_def split: list.splits)

lemma take_length_dropWhile:
  "take (Suc (length xs) - length (dropWhile p xs)) (x # xs) = x # takeWhile p xs"
proof -
  have "length xs = length (takeWhile p xs) + length (dropWhile p xs)"
    by (metis length_append takeWhile_dropWhile_id)
  then have "Suc (length xs) - length (dropWhile p xs) = Suc (length (takeWhile p xs))"
    by simp
  then show ?thesis
    by (simp add: take_Suc_Cons) (metis append_eq_conv_conj takeWhile_dropWhile_id)
qed

lemma seq_group_plus:
  assumes "\<forall>x xs c. am b x \<longrightarrow> ms_seq rs (x # xs, c) = []"
  shows "ms_seq (Group n (Plus b) # rs) (s, c) =
           (case many1 (am b) s of None \<Rightarrow> [] | Some (f, t) \<Rightarrow> ms_seq rs (t, c(n \<mapsto> f)))"
proof (cases s)
  case Nil
  then show ?thesis by (simp add: many1_def)
next
  case (Cons x xs)
  show ?thesis
  proof (cases "am b x")
    case False
    then show ?thesis using Cons by (simp add: many1_def)
  next
    case True
    define K where "K = (\<lambda>(t, c'). ms_seq rs (t, c'(n \<mapsto> take (length s - length t) s)))"
    have rej: "\<forall>y ys. am b y \<longrightarrow> K (y # ys, c) = []"
      using assms by (simp add: K_def)
    have "ms_seq (Group n (Plus b) # rs) (s, c) =
            concat (map K (map (\<lambda>t. (t, c)) (star (am b) xs)))"
      using Cons True by (simp add: K_def comp_def case_prod_unfold)
    also have "\<dots> = K (dropWhile (am b) xs, c)"
      using star_skip [of "am b" K c xs] rej by simp
    also have "\<dots> = ms_seq rs (dropWhile (am b) xs, c(n \<mapsto> x # takeWhile (am b) xs))"
      using Cons by (simp add: K_def take_length_dropWhile)
    finally show ?thesis using Cons True by (simp add: many1_def)
  qed
qed


lemma ms_seq_Nil_map: "concat (map (ms_seq []) xs) = xs"
  by (induction xs) simp_all

lemma ms_seq_single: "ms_seq [r] = ms r"
  by (rule ext) (simp add: ms_seq_Nil_map)

lemma take_prefix_dropWhile:
  "take (length (pre @ xs) - length (dropWhile p xs)) (pre @ xs) = pre @ takeWhile p xs"
proof -
  have "length xs = length (takeWhile p xs) + length (dropWhile p xs)"
    by (metis length_append takeWhile_dropWhile_id)
  then have "length (pre @ xs) - length (dropWhile p xs) = length (pre @ takeWhile p xs)"
    by simp
  moreover have "pre @ xs = (pre @ takeWhile p xs) @ dropWhile p xs"
    by simp
  ultimately show ?thesis
    by (metis append_eq_conv_conj)
qed

lemma plus_skip:
  assumes "\<forall>x xs. am b x \<longrightarrow> K (x # xs, c) = []"
  shows "concat (map K (ms (Plus b) (s, c))) =
           (case many1 (am b) s of None \<Rightarrow> [] | Some (f, t) \<Rightarrow> K (t, c))"
proof (cases s)
  case Nil
  then show ?thesis by (simp add: many1_def)
next
  case (Cons x xs)
  then show ?thesis
    using star_skip [of "am b" K c xs] assms by (simp add: many1_def)
qed

lemma seq_group_signed:
  assumes "\<forall>x xs c. is_digit x \<longrightarrow> ms_seq rs (x # xs, c) = []"
  shows "ms_seq (Group n (Seq [Opt (Chr (CHR ''-'')), Plus Digit]) # rs) (s, c) =
           (case signed_integer s of None \<Rightarrow> [] | Some (f, t) \<Rightarrow> ms_seq rs (t, c(n \<mapsto> f)))"
proof -
  define K where "K = (\<lambda>(t, c'). ms_seq rs (t, c'(n \<mapsto> take (length s - length t) s)))"
  have rej: "\<forall>y ys. am Digit y \<longrightarrow> K (y # ys, c) = []"
    using assms by (simp add: K_def)
  have unfold: "ms_seq (Group n (Seq [Opt (Chr (CHR ''-'')), Plus Digit]) # rs) (s, c) =
          concat (map K (concat (map (ms (Plus Digit)) (ms (Opt (Chr (CHR ''-''))) (s, c)))))"
    by (simp add: K_def ms_seq_single ms_seq_Nil_map case_prod_unfold comp_def del: ms.simps(3,4))
  show ?thesis
  proof (cases s)
    case Nil
    then show ?thesis unfolding unfold by (simp add: signed_integer_def)
  next
    case (Cons x xs)
    show ?thesis
    proof (cases "x = CHR ''-''")
      case False
      then have "ms_seq (Group n (Seq [Opt (Chr (CHR ''-'')), Plus Digit]) # rs) (s, c) =
          concat (map K (ms (Plus Digit) (s, c)))"
        unfolding unfold using Cons by simp
      also have "\<dots> = (case many1 is_digit s of None \<Rightarrow> [] | Some (f, t) \<Rightarrow> K (t, c))"
        using plus_skip [of Digit K c s] rej by (simp add: am_eta)
      also have "\<dots> = (case many1 is_digit s of None \<Rightarrow> []
                         | Some (f, t) \<Rightarrow> ms_seq rs (t, c(n \<mapsto> f)))"
        using take_prefix_dropWhile [of "[]" s is_digit]
        by (simp add: many1_def K_def)
      finally show ?thesis
        using Cons False by (simp add: signed_integer_def unsigned_integer_def)
    next
      case True
      have nd: "\<not> is_digit (CHR ''-'')" by (simp add: is_digit_def)
      have "ms_seq (Group n (Seq [Opt (Chr (CHR ''-'')), Plus Digit]) # rs) (s, c) =
          concat (map K (ms (Plus Digit) (xs, c)))"
        unfolding unfold using Cons True nd by simp
      also have "\<dots> = (case many1 is_digit xs of None \<Rightarrow> [] | Some (f, t) \<Rightarrow> K (t, c))"
        using plus_skip [of Digit K c xs] rej by (simp add: am_eta)
      also have "\<dots> = (case many1 is_digit xs of None \<Rightarrow> []
                         | Some (f, t) \<Rightarrow> ms_seq rs (t, c(n \<mapsto> x # f)))"
        using take_prefix_dropWhile [of "[x]" xs is_digit] Cons
        by (simp add: many1_def K_def)
      finally show ?thesis
        using Cons True by (simp add: signed_integer_def unsigned_integer_def many1_def)
    qed
  qed
qed

lemma seq_token:
  "ms_seq (Alt (Lit ''DEF'') (Lit ''def'') # rs) (s, c) =
     (case macro_token s of None \<Rightarrow> [] | Some t \<Rightarrow> ms_seq rs (t, c))"
  by (auto simp: macro_token_def numeral_3_eq_3 prefix_def)

lemma star_hd: "\<exists>more. star p s = dropWhile p s # more"
  by (induction s) auto

lemma last_group_plus:
  "first_success (ms_seq [Group n (Plus b)] (s, c)) =
     (case many1 (am b) s of None \<Rightarrow> None | Some (f, t) \<Rightarrow> Some (t, c(n \<mapsto> f)))"
proof (cases s)
  case Nil
  then show ?thesis by (simp add: many1_def first_success_def)
next
  case (Cons x xs)
  obtain more where "star (am b) xs = dropWhile (am b) xs # more"
    using star_hd by blast
  then show ?thesis
    using Cons take_prefix_dropWhile [of "[x]" xs "am b"] by (simp add: many1_def first_success_def)
qed



lemma rej_ws_char:
  "\<not> is_space x \<Longrightarrow> x \<noteq> k \<Longrightarrow> ms_seq (Star Space # One (Chr k) # rs) (x # xs, c) = []"
  by simp

lemma step_ws_char:
  assumes "\<not> is_space k"
  shows "ms_seq (Star Space # One (Chr k) # rs) (s, c) =
           (case expect k (skip_ws s) of None \<Rightarrow> [] | Some t \<Rightarrow> ms_seq rs (t, c))"
proof -
  have "\<forall>x xs. am Space x \<longrightarrow> ms_seq (One (Chr k) # rs) (x # xs, c) = []"
    using assms by auto
  then have "ms_seq (Star Space # One (Chr k) # rs) (s, c) =
      ms_seq (One (Chr k) # rs) (dropWhile (am Space) s, c)"
    by (rule seq_star)
  then show ?thesis
    by (simp only: seq_one skip_ws_def am_eta)
qed

lemma step_ws_word:
  assumes "\<not> is_word k"
  shows "ms_seq (Star Space # Group n (Plus Word) # Star Space # One (Chr k) # rs) (s, c) =
           (case bare_word (skip_ws s) of None \<Rightarrow> []
            | Some (f, t) \<Rightarrow> ms_seq (Star Space # One (Chr k) # rs) (t, c(n \<mapsto> f)))"
proof -
  have rej1: "\<forall>x xs c. am Word x \<longrightarrow> ms_seq (Star Space # One (Chr k) # rs) (x # xs, c) = []"
    using assms space_not_word by (intro allI impI rej_ws_char) auto
  note grp = seq_group_plus [OF rej1]
  have rej2: "\<forall>x xs. am Space x \<longrightarrow>
      ms_seq (Group n (Plus Word) # Star Space # One (Chr k) # rs) (x # xs, c) = []"
    unfolding grp using space_not_word by (simp add: many1_def)
  have "ms_seq (Star Space # Group n (Plus Word) # Star Space # One (Chr k) # rs) (s, c) =
      ms_seq (Group n (Plus Word) # Star Space # One (Chr k) # rs) (dropWhile (am Space) s, c)"
    using rej2 by (rule seq_star)
  then show ?thesis
    unfolding grp by (simp only: skip_ws_def am_eta bare_word_def)
qed

lemma step_ws_unsigned:
  assumes "\<not> is_digit k"
  shows "ms_seq (Star Space # Group n (Plus Digit) # Star Space # One (Chr k) # rs) (s, c) =
           (case unsigned_integer (skip_ws s) of None \<Rightarrow> []
            | Some (f, t) \<Rightarrow> ms_seq (Star Space # One (Chr k) # rs) (t, c(n \<mapsto> f)))"
proof -
  have rej1: "\<forall>x xs c. am Digit x \<longrightarrow> ms_seq (Star Space # One (Chr k) # rs) (x # xs, c) = []"
    using assms space_not_digit by (intro allI impI rej_ws_char) auto
  note grp = seq_group_plus [OF rej1]
  have rej2: "\<forall>x xs. am Space x \<longrightarrow>
      ms_seq (Group n (Plus Digit) # Star Space # One (Chr k) # rs) (x # xs, c) = []"
    unfolding grp using space_not_digit by (simp add: many1_def)
  have "ms_seq (Star Space # Group n (Plus Digit) # Star Space # One (Chr k) # rs) (s, c) =
      ms_seq (Group n (Plus Digit) # Star Space # One (Chr k) # rs) (dropWhile (am Space) s, c)"
    using rej2 by (rule seq_star)
  then show ?thesis
    unfolding grp by (simp only: skip_ws_def am_eta unsigned_integer_def)
qed

lemma step_ws_signed:
  assumes "\<not> is_digit k"
  shows "ms_seq (Star Space # Group n (Seq [Opt (Chr (CHR ''-'')), Plus Digit]) #
                 Star Space # One (Chr k) # rs) (s, c) =
           (case signed_integer (skip_ws s) of None \<Rightarrow> []
            | Some (f, t) \<Rightarrow> ms_seq (Star Space # One (Chr k) # rs) (t, c(n \<mapsto> f)))"
proof -
  have rej1: "\<forall>x xs c. is_digit x \<longrightarrow> ms_seq (Star Space # One (Chr k) # rs) (x # xs, c) = []"
    using assms space_not_digit by (intro allI impI rej_ws_char) auto
  note grp = seq_group_signed [OF rej1]
  have rej2: "\<forall>x xs. am Space x \<longrightarrow>
      ms_seq (Group n (Seq [Opt (Chr (CHR ''-'')), Plus Digit]) # Star Space # One (Chr k) # rs)
        (x # xs, c) = []"
    unfolding grp using space_not_digit lit_classes(3)
    by (auto simp add: signed_integer_def unsigned_integer_def many1_def)
  have "ms_seq (Star Space # Group n (Seq [Opt (Chr (CHR ''-'')), Plus Digit]) #
                 Star Space # One (Chr k) # rs) (s, c) =
      ms_seq (Group n (Seq [Opt (Chr (CHR ''-'')), Plus Digit]) # Star Space # One (Chr k) # rs)
        (dropWhile (am Space) s, c)"
    using rej2 by (rule seq_star)
  then show ?thesis
    unfolding grp by (simp only: skip_ws_def am_eta)
qed

lemma step_ws_last:
  "first_success (ms_seq [Star Space, Group n (Plus Word)] (s, c)) =
     (case bare_word (skip_ws s) of None \<Rightarrow> None | Some (f, t) \<Rightarrow> Some (t, c(n \<mapsto> f)))"
proof -
  have rej: "\<forall>x xs. am Space x \<longrightarrow> ms_seq [Group n (Plus Word)] (x # xs, c) = []"
    using space_not_word by simp
  have "ms_seq [Star Space, Group n (Plus Word)] (s, c) =
      ms_seq [Group n (Plus Word)] (dropWhile (am Space) s, c)"
    using rej by (rule seq_star)
  then show ?thesis
    by (simp only: last_group_plus skip_ws_def am_eta bare_word_def)
qed

lemma first_case_option:
  "first_success (case x of None \<Rightarrow> [] | Some y \<Rightarrow> f y) = Option.bind x (\<lambda>y. first_success (f y))"
  by (cases x) (simp_all add: first_success_def)

lemma first_case_prod:
  "first_success (case p of (a, b) \<Rightarrow> f a b) = (case p of (a, b) \<Rightarrow> first_success (f a b))"
  by (cases p) simp

lemma case_option_bind:
  "(case x of None \<Rightarrow> None | Some y \<Rightarrow> g y) = Option.bind x g"
  by (cases x) simp_all

lemma bind_case_prod:
  "Option.bind (case p of (a, b) \<Rightarrow> f a b) g = (case p of (a, b) \<Rightarrow> Option.bind (f a b) g)"
  by (cases p) simp

lemmas fs_token = seq_token [THEN arg_cong [where f = first_success], unfolded first_case_option]
lemmas fs_ws_paren = step_ws_char [OF lit_classes(1), THEN arg_cong [where f = first_success],
  unfolded first_case_option]
lemmas fs_ws_comma = step_ws_char [OF lit_classes(2), THEN arg_cong [where f = first_success],
  unfolded first_case_option]
lemmas fs_ws_word = step_ws_word [OF lit_classes(4), THEN arg_cong [where f = first_success],
  unfolded first_case_option first_case_prod]
lemmas fs_ws_unsigned = step_ws_unsigned [OF lit_classes(5), THEN arg_cong [where f = first_success],
  unfolded first_case_option first_case_prod]
lemmas fs_ws_signed = step_ws_signed [OF lit_classes(5), THEN arg_cong [where f = first_success],
  unfolded first_case_option first_case_prod]
lemmas fs_ws_last = step_ws_last [unfolded case_option_bind]


lemma ms_pattern_first:
  "first_success (ms pattern (s, c)) =
     Option.bind (macro_grammar s) (\<lambda>(name, sz, npop, npush, fmt, rest).
          Some (rest, c(1 \<mapsto> name, 2 \<mapsto> sz, 3 \<mapsto> npop, 4 \<mapsto> npush, 5 \<mapsto> fmt)))"
  unfolding pattern_def ms.simps(7) macro_grammar_def
  by (simp only: fs_token fs_ws_paren fs_ws_comma fs_ws_word fs_ws_unsigned fs_ws_signed
      fs_ws_last Option.bind_assoc bind_case_prod Option.bind.bind_lunit prod.case)

lemma re_match_pattern:
  "re_match pattern s =
     map_option (\<lambda>(name, sz, npop, npush, fmt, rest).
        Map.empty(1 \<mapsto> name, 2 \<mapsto> sz, 3 \<mapsto> npop, 4 \<mapsto> npush, 5 \<mapsto> fmt)) (macro_grammar s)"
  unfolding re_match_def ms_pattern_first
  by (cases "macro_grammar s") auto

lemma matches_grammar: "matches l \<longleftrightarrow> macro_grammar (strip l) \<noteq> None"
  by (simp add: matches_def re_match_pattern)

lemma groups_5: "groups 5 m = [m 1, m 2, m 3, m 4, m 5]"
proof -
  have "[Suc 0..<6] = [Suc 0, 2, 3, 4, 5]"
    by (simp add: upt_rec)
  then show ?thesis
    by (simp add: groups_def)
qed

lemma groups_pattern:
  "macro_grammar s = Some (name, sz, npop, npush, fmt, rest) \<Longrightarrow>
     \<exists>m. re_match pattern s = Some m \<and>
         groups 5 m = [Some name, Some sz, Some npop, Some npush, Some fmt]"
  by (simp add: re_match_pattern groups_5)

lemma body_unfold:
  "body st line0 =
     (let line = strip line0 in
      case re_match pattern line of
        None \<Rightarrow> Inr st
      | Some m \<Rightarrow>
          (case groups 5 m of
             [name, size', npop, npush, fmt] \<Rightarrow>
               Inr \<lparr>idx = idx st + 1,
                    stdout = stdout st @ [format_record (idx st) name size' npop npush fmt]\<rparr>
           | _ \<Rightarrow> Inl UnpackError))"
  unfolding body_def body_on_def accept_all_def if_True by (rule refl)

lemma for_loop_simps [simp]:
  "for_loop st [] = (st, None)"
  "for_loop st (l # ls) =
     (case body st l of
        Inl e \<Rightarrow> (st, Some e)
      | Inr st' \<Rightarrow> for_loop st' ls)"
  unfolding for_loop_def body_def by simp_all

lemma script_unfold:
  "script src =
     (case src of
        None \<Rightarrow> ([], Some InputError)
      | Some lines \<Rightarrow>
          (case for_loop \<lparr>idx = 0, stdout = []\<rparr> (split_on NL lines) of
             (st, e) \<Rightarrow> (stdout st, e)))"
  unfolding script_def script_on_def for_loop_def by (rule refl)

lemma body_no_match:
  "macro_grammar (strip l) = None \<Longrightarrow> body st l = Inr st"
  by (simp add: body_unfold re_match_pattern)

lemma body_match:
  assumes "macro_grammar (strip l) = Some (name, sz, npop, npush, fmt, rest)"
  shows "body st l = Inr \<lparr>idx = idx st + 1, stdout = stdout st @ [record_of (idx st) l]\<rparr>"
  using assms by (simp add: body_unfold re_match_pattern groups_5 record_of_def)

lemma body_cases:
  "body st l = Inr (if matches l
     then \<lparr>idx = idx st + 1, stdout = stdout st @ [record_of (idx st) l]\<rparr> else st)"
proof (cases "macro_grammar (strip l)")
  case None
  then show ?thesis by (simp add: body_no_match matches_grammar)
next
  case (Some t)
  then show ?thesis
    by (cases t) (simp add: body_match matches_grammar)
qed

lemma for_loop_eq:
  "for_loop st ls =
     (\<lparr>idx = idx st + length (filter matches ls),
       stdout = stdout st @
         map (\<lambda>(i, l). record_of i l) (enumerate (idx st) (filter matches ls))\<rparr>, None)"
proof (induction ls arbitrary: st)
  case Nil
  then show ?case by simp
next
  case (Cons l ls)
  show ?case
  proof (cases "matches l")
    case False
    then show ?thesis by (simp add: body_cases Cons)
  next
    case True
    then show ?thesis
      by (simp add: body_cases Cons)
  qed
qed

lemma script_eq:
  "script (Some text) =
     (map (\<lambda>(i, l). record_of i l) (enumerate 0 (filter matches (split_on NL text))), None)"
  by (simp add: script_unfold for_loop_eq)

lemma grammar_stepsE:
  assumes "macro_grammar s = Some (n, z, p, q, f, r)"
  obtains s1 s2 s3 s4 s5 s6 s7 s8 s9 s10 where
    "macro_token s = Some s1"
    "expect (CHR ''('') (skip_ws s1) = Some s2"
    "bare_word (skip_ws s2) = Some (n, s3)"
    "expect (CHR '','') (skip_ws s3) = Some s4"
    "unsigned_integer (skip_ws s4) = Some (z, s5)"
    "expect (CHR '','') (skip_ws s5) = Some s6"
    "signed_integer (skip_ws s6) = Some (p, s7)"
    "expect (CHR '','') (skip_ws s7) = Some s8"
    "signed_integer (skip_ws s8) = Some (q, s9)"
    "expect (CHR '','') (skip_ws s9) = Some s10"
    "bare_word (skip_ws s10) = Some (f, r)"
  using assms unfolding macro_grammar_def
  by (auto simp: bind_eq_Some_conv)

lemma grammar_stepsI:
  assumes "macro_token s = Some s1"
    "expect (CHR ''('') (skip_ws s1) = Some s2"
    "bare_word (skip_ws s2) = Some (n, s3)"
    "expect (CHR '','') (skip_ws s3) = Some s4"
    "unsigned_integer (skip_ws s4) = Some (z, s5)"
    "expect (CHR '','') (skip_ws s5) = Some s6"
    "signed_integer (skip_ws s6) = Some (p, s7)"
    "expect (CHR '','') (skip_ws s7) = Some s8"
    "signed_integer (skip_ws s8) = Some (q, s9)"
    "expect (CHR '','') (skip_ws s9) = Some s10"
    "bare_word (skip_ws s10) = Some (f, r)"
  shows "macro_grammar s = Some (n, z, p, q, f, r)"
  using assms unfolding macro_grammar_def by simp

lemma macro_token_Some:
  "macro_token s = Some t \<Longrightarrow> s = ''DEF'' @ t \<or> s = ''def'' @ t"
  by (auto simp: macro_token_def prefix_def numeral_3_eq_3 split: if_splits)

lemma expect_ws_Some:
  assumes "expect k (skip_ws s) = Some t"
  shows "s = takeWhile is_space s @ k # t"
proof -
  have "dropWhile is_space s = k # t"
    using assms by (auto simp: expect_def skip_ws_def split: list.splits if_splits)
  then show ?thesis
    by (metis takeWhile_dropWhile_id)
qed

lemma all_takeWhile: "list_all p (takeWhile p s)"
  by (induction s) auto

lemma hd_dropWhile_not: "dropWhile p s = [] \<or> \<not> p (hd (dropWhile p s))"
  by (induction s) auto

lemma many1_Some:
  assumes "many1 p s = Some (f, t)"
  shows "s = f @ t \<and> f \<noteq> [] \<and> list_all p f \<and> (t = [] \<or> \<not> p (hd t))"
proof -
  have "f = takeWhile p s" and "t = dropWhile p s" and "f \<noteq> []"
    using assms by (auto simp: many1_def split: if_splits)
  then show ?thesis
    using all_takeWhile [of p s] hd_dropWhile_not [of p s] by auto
qed

lemma many1_ws_Some:
  assumes "many1 p (skip_ws s) = Some (f, t)"
  shows "s = takeWhile is_space s @ f @ t \<and> f \<noteq> [] \<and> list_all p f \<and> (t = [] \<or> \<not> p (hd t))"
proof -
  have "dropWhile is_space s = f @ t"
    using many1_Some [OF assms] by (simp add: skip_ws_def)
  then have "s = takeWhile is_space s @ f @ t"
    by (metis takeWhile_dropWhile_id)
  then show ?thesis
    using many1_Some [OF assms] by simp
qed

lemma signed_Some:
  assumes "signed_integer s = Some (f, t)"
  shows "s = f @ t \<and> (t = [] \<or> \<not> is_digit (hd t)) \<and>
         (\<exists>d. d \<noteq> [] \<and> list_all is_digit d \<and> (f = d \<or> f = CHR ''-'' # d))"
proof (cases "\<exists>xs. s = CHR ''-'' # xs")
  case True
  then obtain xs where s: "s = CHR ''-'' # xs" by blast
  then obtain d where "many1 is_digit xs = Some (d, t)" and f: "f = CHR ''-'' # d"
    using assms by (auto simp: signed_integer_def unsigned_integer_def)
  from many1_Some [OF this(1)] show ?thesis
    using s f by auto
next
  case False
  then have "many1 is_digit s = Some (f, t)"
    using assms
    by (auto simp: signed_integer_def unsigned_integer_def split: list.splits if_splits)
  from many1_Some [OF this] show ?thesis by auto
qed

lemma signed_ws_Some:
  assumes "signed_integer (skip_ws s) = Some (f, t)"
  shows "s = takeWhile is_space s @ f @ t \<and> (t = [] \<or> \<not> is_digit (hd t)) \<and>
         (\<exists>d. d \<noteq> [] \<and> list_all is_digit d \<and> (f = d \<or> f = CHR ''-'' # d))"
proof -
  have "dropWhile is_space s = f @ t"
    using signed_Some [OF assms] by (simp add: skip_ws_def)
  then have "s = takeWhile is_space s @ f @ t"
    by (metis takeWhile_dropWhile_id)
  then show ?thesis
    using signed_Some [OF assms] by simp
qed

lemma grammar_fields:
  assumes "macro_grammar s = Some (n, z, p, q, f, r)"
  shows "n \<noteq> [] \<and> list_all is_word n" and "z \<noteq> [] \<and> list_all is_digit z"
    and "\<exists>d. d \<noteq> [] \<and> list_all is_digit d \<and> (p = d \<or> p = CHR ''-'' # d)"
    and "\<exists>d. d \<noteq> [] \<and> list_all is_digit d \<and> (q = d \<or> q = CHR ''-'' # d)"
    and "f \<noteq> [] \<and> list_all is_word f" and "r = [] \<or> \<not> is_word (hd r)"
proof -
  from assms obtain s1 s2 s3 s4 s5 s6 s7 s8 s9 s10 where
    st: "bare_word (skip_ws s2) = Some (n, s3)"
      "unsigned_integer (skip_ws s4) = Some (z, s5)"
      "signed_integer (skip_ws s6) = Some (p, s7)"
      "signed_integer (skip_ws s8) = Some (q, s9)"
      "bare_word (skip_ws s10) = Some (f, r)"
    by (rule grammar_stepsE)
  show "n \<noteq> [] \<and> list_all is_word n"
    using many1_Some [of is_word "skip_ws s2" n s3] st(1) by (simp add: bare_word_def)
  show "z \<noteq> [] \<and> list_all is_digit z"
    using many1_Some [of is_digit "skip_ws s4" z s5] st(2) by (simp add: unsigned_integer_def)
  show "\<exists>d. d \<noteq> [] \<and> list_all is_digit d \<and> (p = d \<or> p = CHR ''-'' # d)"
    using signed_Some [OF st(3)] by simp
  show "\<exists>d. d \<noteq> [] \<and> list_all is_digit d \<and> (q = d \<or> q = CHR ''-'' # d)"
    using signed_Some [OF st(4)] by simp
  show "f \<noteq> [] \<and> list_all is_word f" and "r = [] \<or> \<not> is_word (hd r)"
    using many1_Some [of is_word "skip_ws s10" f r] st(5) by (simp_all add: bare_word_def)
qed

lemma grammar_shape:
  assumes "macro_grammar s = Some (n, z, p, q, f, r)"
  shows "\<exists>tok w1 w2 w3 w4 w5 w6 w7 w8 w9 w10.
           s = tok @ w1 @ ''('' @ w2 @ n @ w3 @ '','' @ w4 @ z @ w5 @ '','' @ w6 @ p @ w7 @
               '','' @ w8 @ q @ w9 @ '','' @ w10 @ f @ r \<and>
           (tok = ''DEF'' \<or> tok = ''def'') \<and>
           list_all is_space (w1 @ w2 @ w3 @ w4 @ w5 @ w6 @ w7 @ w8 @ w9 @ w10)"
proof -
  from assms obtain s1 s2 s3 s4 s5 s6 s7 s8 s9 s10 where
    st: "macro_token s = Some s1"
      "expect (CHR ''('') (skip_ws s1) = Some s2"
      "bare_word (skip_ws s2) = Some (n, s3)"
      "expect (CHR '','') (skip_ws s3) = Some s4"
      "unsigned_integer (skip_ws s4) = Some (z, s5)"
      "expect (CHR '','') (skip_ws s5) = Some s6"
      "signed_integer (skip_ws s6) = Some (p, s7)"
      "expect (CHR '','') (skip_ws s7) = Some s8"
      "signed_integer (skip_ws s8) = Some (q, s9)"
      "expect (CHR '','') (skip_ws s9) = Some s10"
      "bare_word (skip_ws s10) = Some (f, r)"
    by (rule grammar_stepsE)
  define tok where "tok = take 3 s"
  have e0: "s = tok @ s1" and tok: "tok = ''DEF'' \<or> tok = ''def''"
    using macro_token_Some [OF st(1)] by (auto simp: tok_def)
  have e1: "s1 = takeWhile is_space s1 @ ''('' @ s2"
    using expect_ws_Some [OF st(2)] by simp
  have e2: "s2 = takeWhile is_space s2 @ n @ s3"
    using many1_ws_Some [of is_word s2 n s3] st(3) by (simp add: bare_word_def)
  have e3: "s3 = takeWhile is_space s3 @ '','' @ s4"
    using expect_ws_Some [OF st(4)] by simp
  have e4: "s4 = takeWhile is_space s4 @ z @ s5"
    using many1_ws_Some [of is_digit s4 z s5] st(5) by (simp add: unsigned_integer_def)
  have e5: "s5 = takeWhile is_space s5 @ '','' @ s6"
    using expect_ws_Some [OF st(6)] by simp
  have e6: "s6 = takeWhile is_space s6 @ p @ s7"
    using signed_ws_Some [OF st(7)] by simp
  have e7: "s7 = takeWhile is_space s7 @ '','' @ s8"
    using expect_ws_Some [OF st(8)] by simp
  have e8: "s8 = takeWhile is_space s8 @ q @ s9"
    using signed_ws_Some [OF st(9)] by simp
  have e9: "s9 = takeWhile is_space s9 @ '','' @ s10"
    using expect_ws_Some [OF st(10)] by simp
  have e10: "s10 = takeWhile is_space s10 @ f @ r"
    using many1_ws_Some [of is_word s10 f r] st(11) by (simp add: bare_word_def)
  have "s = tok @ takeWhile is_space s1 @ ''('' @ takeWhile is_space s2 @ n @
      takeWhile is_space s3 @ '','' @ takeWhile is_space s4 @ z @
      takeWhile is_space s5 @ '','' @ takeWhile is_space s6 @ p @
      takeWhile is_space s7 @ '','' @ takeWhile is_space s8 @ q @
      takeWhile is_space s9 @ '','' @ takeWhile is_space s10 @ f @ r"
    using e0 e1 e2 e3 e4 e5 e6 e7 e8 e9 e10 by metis
  moreover have "list_all is_space (takeWhile is_space s1 @ takeWhile is_space s2 @
      takeWhile is_space s3 @ takeWhile is_space s4 @ takeWhile is_space s5 @
      takeWhile is_space s6 @ takeWhile is_space s7 @ takeWhile is_space s8 @
      takeWhile is_space s9 @ takeWhile is_space s10)"
    by (simp add: all_takeWhile)
  ultimately show ?thesis
    using tok by blast
qed

lemma lt16_cases:
  "(d::nat) < 16 \<Longrightarrow> d = 0 \<or> d = 1 \<or> d = 2 \<or> d = 3 \<or> d = 4 \<or> d = 5 \<or> d = 6 \<or> d = 7 \<or>
     d = 8 \<or> d = 9 \<or> d = 10 \<or> d = 11 \<or> d = 12 \<or> d = 13 \<or> d = 14 \<or> d = 15"
  by arith

lemma digit_char_hex:
  assumes "d < 16"
  shows "digit_char d \<in> set ''0123456789ABCDEF''" and "digit_val (digit_char d) = d"
  using lt16_cases [OF assms]
  by (auto simp: digit_char_def digit_val_def is_digit_def)

lemma digit_char_dec:
  assumes "d < 10"
  shows "digit_char d \<in> set ''0123456789''"
proof -
  have "d < 16" using assms by simp
  from lt16_cases [OF this] assms show ?thesis
    by (auto simp: digit_char_def)
qed

lemma set_fmt_d: "set (fmt_d n) \<subseteq> set ''0123456789''"
proof (induction n rule: fmt_d.induct)
  case (1 n)
  show ?case
  proof (cases "n < 10")
    case True
    then show ?thesis using digit_char_dec [of n] by (subst fmt_d.simps) simp
  next
    case False
    have "n mod 10 < 10" by simp
    then show ?thesis
      using False 1 digit_char_dec [of "n mod 10"] by (subst fmt_d.simps) simp
  qed
qed

lemma set_fmt_X: "set (fmt_X n) \<subseteq> set ''0123456789ABCDEF''"
proof (induction n rule: fmt_X.induct)
  case (1 n)
  show ?case
  proof (cases "n < 16")
    case True
    then show ?thesis using digit_char_hex(1) [of n] by (subst fmt_X.simps) simp
  next
    case False
    have "n mod 16 < 16" by simp
    then show ?thesis
      using False 1 digit_char_hex(1) [of "n mod 16"] by (subst fmt_X.simps) simp
  qed
qed

lemma set_fmt_02X: "set (fmt_02X n) \<subseteq> set ''0123456789ABCDEF''"
  using set_fmt_X [of n] by (auto simp: fmt_02X_def)

lemma read_nat_snoc: "read_nat b (s @ [c]) = read_nat b s * b + digit_val c"
  by (simp add: read_nat_def)

lemma read_fmt_d: "read_nat 10 (fmt_d n) = n"
proof (induction n rule: fmt_d.induct)
  case (1 n)
  show ?case
  proof (cases "n < 10")
    case True
    then show ?thesis
      using digit_char_hex(2) [of n] by (subst fmt_d.simps) (simp add: read_nat_def)
  next
    case False
    have "n mod 10 < 16" by (simp add: less_trans [OF pos_mod_bound])
    then show ?thesis
      using False 1 digit_char_hex(2) [of "n mod 10"]
      by (subst fmt_d.simps) (simp add: read_nat_snoc)
  qed
qed

lemma read_fmt_X: "read_nat 16 (fmt_X n) = n"
proof (induction n rule: fmt_X.induct)
  case (1 n)
  show ?case
  proof (cases "n < 16")
    case True
    then show ?thesis
      using digit_char_hex(2) [of n] by (subst fmt_X.simps) (simp add: read_nat_def)
  next
    case False
    have "n mod 16 < 16" by simp
    then show ?thesis
      using False 1 digit_char_hex(2) [of "n mod 16"]
      by (subst fmt_X.simps) (simp add: read_nat_snoc)
  qed
qed

lemma read_nat_zeros: "read_nat b (replicate k (CHR ''0'') @ s) = read_nat b s"
proof -
  have "foldl (\<lambda>a c. a * b + digit_val c) 0 (replicate k (CHR ''0'')) = 0"
    by (induction k) (simp_all add: digit_val_def is_digit_def)
  then show ?thesis by (simp add: read_nat_def)
qed

lemma read_fmt_02X: "read_nat 16 (fmt_02X n) = n"
  by (simp add: fmt_02X_def read_nat_zeros read_fmt_X)

lemma length_fmt_X_1: "n < 16 \<Longrightarrow> length (fmt_X n) = 1"
  by (subst fmt_X.simps) simp

lemma length_fmt_X_2: "16 \<le> n \<Longrightarrow> n < 256 \<Longrightarrow> length (fmt_X n) = 2"
  by (subst fmt_X.simps) (simp add: length_fmt_X_1)

lemma length_fmt_X_ge: "16 \<le> n \<Longrightarrow> 2 \<le> length (fmt_X n)"
proof -
  assume a: "16 \<le> n"
  have "1 \<le> length (fmt_X (n div 16))"
    by (subst fmt_X.simps) simp
  then show ?thesis using a by (subst fmt_X.simps) simp
qed

lemma length_fmt_X_3: "256 \<le> n \<Longrightarrow> 3 \<le> length (fmt_X n)"
proof -
  assume a: "256 \<le> n"
  then have "16 \<le> n div 16" by simp
  then have "2 \<le> length (fmt_X (n div 16))" by (rule length_fmt_X_ge)
  then show ?thesis using a by (subst fmt_X.simps) simp
qed

lemma length_fmt_02X:
  "length (fmt_02X n) = (if n < 256 then 2 else length (fmt_X n))"
  "256 \<le> n \<Longrightarrow> fmt_02X n = fmt_X n \<and> 3 \<le> length (fmt_02X n)"
proof -
  show "length (fmt_02X n) = (if n < 256 then 2 else length (fmt_X n))"
  proof (cases "n < 16")
    case True
    then show ?thesis by (simp add: fmt_02X_def length_fmt_X_1)
  next
    case False
    then show ?thesis
      using length_fmt_X_2 [of n] length_fmt_X_3 [of n] by (auto simp: fmt_02X_def)
  qed
  show "256 \<le> n \<Longrightarrow> fmt_02X n = fmt_X n \<and> 3 \<le> length (fmt_02X n)"
    using length_fmt_X_3 [of n] by (simp add: fmt_02X_def)
qed

lemma split_on_notin: "sep \<notin> set a \<Longrightarrow> split_on sep a = [a]"
  by (induction a) auto

lemma split_on_append:
  "sep \<notin> set a \<Longrightarrow> split_on sep (a @ sep # b) = a # split_on sep b"
  by (induction a) auto

lemma tab_classes: "\<not> is_word TAB" "\<not> is_digit TAB" "TAB \<noteq> CHR ''-''"
  by (simp_all add: TAB_def is_word_def is_digit_def)

lemma tab_notin_word: "list_all is_word s \<Longrightarrow> TAB \<notin> set s"
  using tab_classes(1) by (auto simp: list_all_iff)

lemma tab_notin_digits: "list_all is_digit s \<Longrightarrow> TAB \<notin> set s"
  using tab_classes(2) by (auto simp: list_all_iff)

lemma tab_notin_signed:
  "\<exists>d. d \<noteq> [] \<and> list_all is_digit d \<and> (p = d \<or> p = CHR ''-'' # d) \<Longrightarrow> TAB \<notin> set p"
  using tab_notin_digits tab_classes(3) by auto

lemma tab_notin_fmt: "TAB \<notin> set (fmt_d i)" "TAB \<notin> set (fmt_02X i)"
  using set_fmt_d [of i] set_fmt_02X [of i] by (auto simp: TAB_def)

lemma fields_format_record:
  assumes "TAB \<notin> set n" "TAB \<notin> set z" "TAB \<notin> set p" "TAB \<notin> set q" "TAB \<notin> set f"
  shows "fields (format_record i (Some n) (Some z) (Some p) (Some q) (Some f)) =
           [fmt_d i, ''0x'' @ fmt_02X i, ''OP_'' @ n, ''size='' @ z, ''pop='' @ p,
            ''push='' @ q, ''fmt='' @ f]"
proof -
  have t: "TAB \<notin> set (fmt_d i)" "TAB \<notin> set (''0x'' @ fmt_02X i)" "TAB \<notin> set (''OP_'' @ n)"
    "TAB \<notin> set (''size='' @ z)" "TAB \<notin> set (''pop='' @ p)" "TAB \<notin> set (''push='' @ q)"
    "TAB \<notin> set (''fmt='' @ f)"
    using assms tab_notin_fmt [of i] by (simp_all add: TAB_def)
  have "format_record i (Some n) (Some z) (Some p) (Some q) (Some f) =
      fmt_d i @ TAB # (''0x'' @ fmt_02X i) @ TAB # (''OP_'' @ n) @ TAB # (''size='' @ z) @
      TAB # (''pop='' @ p) @ TAB # (''push='' @ q) @ TAB # (''fmt='' @ f)"
    by (simp add: format_record_def)
  then show ?thesis
    unfolding fields_def
    by (simp only: split_on_append [OF t(1)] split_on_append [OF t(2)] split_on_append [OF t(3)]
        split_on_append [OF t(4)] split_on_append [OF t(5)] split_on_append [OF t(6)]
        split_on_notin [OF t(7)])
qed

lemma fields_record_of:
  assumes "macro_grammar (strip l) = Some (n, z, p, q, f, r)"
  shows "fields (record_of i l) =
           [fmt_d i, ''0x'' @ fmt_02X i, ''OP_'' @ n, ''size='' @ z, ''pop='' @ p,
            ''push='' @ q, ''fmt='' @ f]"
proof -
  note g = grammar_fields [OF assms]
  have "fields (format_record i (Some n) (Some z) (Some p) (Some q) (Some f)) =
           [fmt_d i, ''0x'' @ fmt_02X i, ''OP_'' @ n, ''size='' @ z, ''pop='' @ p,
            ''push='' @ q, ''fmt='' @ f]"
    using g(1,2,5) tab_notin_signed [OF g(3)] tab_notin_signed [OF g(4)]
      tab_notin_word [of n] tab_notin_word [of f] tab_notin_digits [of z]
    by (intro fields_format_record) simp_all
  then show ?thesis
    using assms by (simp add: record_of_def)
qed

lemma hd_fields_record_of:
  assumes "matches l"
  shows "hd (fields (record_of i l)) = fmt_d i"
proof -
  from assms obtain n z p q f r where "macro_grammar (strip l) = Some (n, z, p, q, f, r)"
    by (auto simp: matches_grammar)
  from fields_record_of [OF this] show ?thesis by simp
qed

lemma script_out_nth:
  assumes "i < length (filter matches (split_on NL text))"
  shows "fst (script (Some text)) ! i = record_of i (filter matches (split_on NL text) ! i)"
  using assms by (simp add: script_eq nth_enumerate_eq)

lemma length_script_out:
  "length (fst (script (Some text))) = length (filter matches (split_on NL text))"
  by (simp add: script_eq)

lemma filter_nth_matches:
  "i < length (filter matches ls) \<Longrightarrow> matches (filter matches ls ! i)"
  using nth_mem [of i "filter matches ls"] by simp

section \<open>The claims\<close>

text \<open>
  C1. For every input text the script prints one record for each matching line, in the
  order of the lines. With \<open>k\<close> the number of matching lines, the first fields of the
  records are the decimal renderings of \<open>0, 1, \<dots>, k - 1\<close> (read back as numbers:
  \<open>[0..<k]\<close>), the \<open>i\<close>-th record is what the loop body prints for the \<open>i\<close>-th matching
  line at counter \<open>i\<close>, and the counter ends at \<open>k\<close>: it advances on matching lines only.
\<close>

theorem index_sequence:
  assumes "script (Some text) = (out, e)"
    and "ls = filter matches (split_on NL text)"
  shows "e = None \<and> length out = length ls \<and>
         map (\<lambda>r. hd (fields r)) out = map fmt_d [0..<length ls] \<and>
         map (\<lambda>r. read_nat 10 (hd (fields r))) out = [0..<length ls] \<and>
         (\<forall>i<length ls.
            body \<lparr>idx = i, stdout = []\<rparr> (ls ! i) = Inr \<lparr>idx = Suc i, stdout = [out ! i]\<rparr>) \<and>
         for_loop \<lparr>idx = 0, stdout = []\<rparr> (split_on NL text) =
           (\<lparr>idx = length ls, stdout = out\<rparr>, None)"
proof -
  have out: "out = map (\<lambda>(i, l). record_of i l) (enumerate 0 ls)" and e: "e = None"
    using assms by (simp_all add: script_eq)
  have len: "length out = length ls"
    by (simp add: out)
  have nth: "out ! i = record_of i (ls ! i)" if "i < length ls" for i
    using that by (simp add: out nth_enumerate_eq)
  have m: "matches (ls ! i)" if "i < length ls" for i
    using that filter_nth_matches unfolding assms(2) by blast
  have first: "hd (fields (out ! i)) = fmt_d i" if "i < length ls" for i
    using that nth m hd_fields_record_of by simp
  have a: "map (\<lambda>r. hd (fields r)) out = map fmt_d [0..<length ls]"
    using first len by (intro nth_equalityI) simp_all
  have b: "map (\<lambda>r. read_nat 10 (hd (fields r))) out = [0..<length ls]"
    using first len by (intro nth_equalityI) (simp_all add: read_fmt_d)
  have c: "body \<lparr>idx = i, stdout = []\<rparr> (ls ! i) = Inr \<lparr>idx = Suc i, stdout = [out ! i]\<rparr>"
    if "i < length ls" for i
    using that m nth by (simp add: body_cases)
  have d: "for_loop \<lparr>idx = 0, stdout = []\<rparr> (split_on NL text) =
      (\<lparr>idx = length ls, stdout = out\<rparr>, None)"
    by (simp add: for_loop_eq out assms(2))
  show ?thesis
    using e len a b c d by blast
qed

theorem index_sequence_witness:
  "script (Some (''// DEF(foo, 1, 0, 0, none)'' @ [NL] @ ''def(bar, 2, -1, 1, none)'' @ [NL] @ [NL] @ ''  DEF ( baz ,3,0,-0,u8) // x'')) =
     ([(''0'' @ [TAB] @ ''0x00'' @ [TAB] @ ''OP_bar'' @ [TAB] @ ''size=2'' @ [TAB] @ ''pop=-1'' @ [TAB] @ ''push=1'' @ [TAB] @ ''fmt=none''),
       (''1'' @ [TAB] @ ''0x01'' @ [TAB] @ ''OP_baz'' @ [TAB] @ ''size=3'' @ [TAB] @ ''pop=0'' @ [TAB] @ ''push=-0'' @ [TAB] @ ''fmt=u8'')], None) \<and>
   filter matches (split_on NL (''// DEF(foo, 1, 0, 0, none)'' @ [NL] @ ''def(bar, 2, -1, 1, none)'' @ [NL] @ [NL] @ ''  DEF ( baz ,3,0,-0,u8) // x'')) =
     [''def(bar, 2, -1, 1, none)'', ''  DEF ( baz ,3,0,-0,u8) // x''] \<and>
   map (\<lambda>r. read_nat 10 (hd (fields r)))
     [(''0'' @ [TAB] @ ''0x00'' @ [TAB] @ ''OP_bar'' @ [TAB] @ ''size=2'' @ [TAB] @ ''pop=-1'' @ [TAB] @ ''push=1'' @ [TAB] @ ''fmt=none''),
      (''1'' @ [TAB] @ ''0x01'' @ [TAB] @ ''OP_baz'' @ [TAB] @ ''size=3'' @ [TAB] @ ''pop=0'' @ [TAB] @ ''push=-0'' @ [TAB] @ ''fmt=u8'')] = [0, 1] \<and>
   body \<lparr>idx = 1, stdout = []\<rparr> ''  DEF ( baz ,3,0,-0,u8) // x'' =
     Inr \<lparr>idx = 2, stdout = [(''1'' @ [TAB] @ ''0x01'' @ [TAB] @ ''OP_baz'' @ [TAB] @ ''size=3'' @ [TAB] @ ''pop=0'' @ [TAB] @ ''push=-0'' @ [TAB] @ ''fmt=u8'')]\<rparr>"
proof -
  have h1: "script (Some (''// DEF(foo, 1, 0, 0, none)'' @ [NL] @ ''def(bar, 2, -1, 1, none)'' @ [NL] @ [NL] @ ''  DEF ( baz ,3,0,-0,u8) // x'')) =
     ([(''0'' @ [TAB] @ ''0x00'' @ [TAB] @ ''OP_bar'' @ [TAB] @ ''size=2'' @ [TAB] @ ''pop=-1'' @ [TAB] @ ''push=1'' @ [TAB] @ ''fmt=none''),
       (''1'' @ [TAB] @ ''0x01'' @ [TAB] @ ''OP_baz'' @ [TAB] @ ''size=3'' @ [TAB] @ ''pop=0'' @ [TAB] @ ''push=-0'' @ [TAB] @ ''fmt=u8'')], None)"
    by code_simp
  have h2: "[''def(bar, 2, -1, 1, none)'', ''  DEF ( baz ,3,0,-0,u8) // x''] =
      filter matches (split_on NL (''// DEF(foo, 1, 0, 0, none)'' @ [NL] @ ''def(bar, 2, -1, 1, none)'' @ [NL] @ [NL] @ ''  DEF ( baz ,3,0,-0,u8) // x''))"
    by code_simp
  note c = index_sequence [OF h1 h2]
  from c have "map (\<lambda>r. read_nat 10 (hd (fields r)))
     [(''0'' @ [TAB] @ ''0x00'' @ [TAB] @ ''OP_bar'' @ [TAB] @ ''size=2'' @ [TAB] @ ''pop=-1'' @ [TAB] @ ''push=1'' @ [TAB] @ ''fmt=none''),
      (''1'' @ [TAB] @ ''0x01'' @ [TAB] @ ''OP_baz'' @ [TAB] @ ''size=3'' @ [TAB] @ ''pop=0'' @ [TAB] @ ''push=-0'' @ [TAB] @ ''fmt=u8'')] = [0..<length [''def(bar, 2, -1, 1, none)'', ''  DEF ( baz ,3,0,-0,u8) // x'']]"
    by (elim conjE)
  then have a: "map (\<lambda>r. read_nat 10 (hd (fields r)))
     [(''0'' @ [TAB] @ ''0x00'' @ [TAB] @ ''OP_bar'' @ [TAB] @ ''size=2'' @ [TAB] @ ''pop=-1'' @ [TAB] @ ''push=1'' @ [TAB] @ ''fmt=none''),
      (''1'' @ [TAB] @ ''0x01'' @ [TAB] @ ''OP_baz'' @ [TAB] @ ''size=3'' @ [TAB] @ ''pop=0'' @ [TAB] @ ''push=-0'' @ [TAB] @ ''fmt=u8'')] = [0, 1]"
    by (simp only: list.size upt_rec [of 0] upt_rec [of "Suc 0"] upt_rec [of "Suc (Suc 0)"]
        One_nat_def add_Suc_right add_0_right lessI zero_less_Suc if_True if_False less_irrefl)
  from c have "\<forall>i<length [''def(bar, 2, -1, 1, none)'', ''  DEF ( baz ,3,0,-0,u8) // x''].
      body \<lparr>idx = i, stdout = []\<rparr> ([''def(bar, 2, -1, 1, none)'', ''  DEF ( baz ,3,0,-0,u8) // x''] ! i) =
      Inr \<lparr>idx = Suc i, stdout = [[(''0'' @ [TAB] @ ''0x00'' @ [TAB] @ ''OP_bar'' @ [TAB] @ ''size=2'' @ [TAB] @ ''pop=-1'' @ [TAB] @ ''push=1'' @ [TAB] @ ''fmt=none''),
      (''1'' @ [TAB] @ ''0x01'' @ [TAB] @ ''OP_baz'' @ [TAB] @ ''size=3'' @ [TAB] @ ''pop=0'' @ [TAB] @ ''push=-0'' @ [TAB] @ ''fmt=u8'')] ! i]\<rparr>"
    by (elim conjE)
  from this [rule_format, of 1] have b: "body \<lparr>idx = 1, stdout = []\<rparr> ''  DEF ( baz ,3,0,-0,u8) // x'' =
     Inr \<lparr>idx = 2, stdout = [(''1'' @ [TAB] @ ''0x01'' @ [TAB] @ ''OP_baz'' @ [TAB] @ ''size=3'' @ [TAB] @ ''pop=0'' @ [TAB] @ ''push=-0'' @ [TAB] @ ''fmt=u8'')]\<rparr>"
    by (simp add: numeral_2_eq_2)
  show ?thesis
    using h1 h2 [symmetric] a b by (intro conjI)
qed

lemma record_of_strip: "strip l = strip l' \<Longrightarrow> record_of i l = record_of i l'"
  by (simp add: record_of_def)

lemma body_tagged_name:
  assumes "matches l"
  shows "\<exists>m name st'. re_match pattern (strip l) = Some m \<and> m 1 = Some name \<and>
           body st l = Inr st' \<and> fields (last (stdout st')) ! 2 = ''OP_'' @ name"
proof -
  from assms obtain n z p q f r where g: "macro_grammar (strip l) = Some (n, z, p, q, f, r)"
    by (auto simp: matches_grammar)
  have "re_match pattern (strip l) =
      Some (Map.empty(1 \<mapsto> n, 2 \<mapsto> z, 3 \<mapsto> p, 4 \<mapsto> q, 5 \<mapsto> f))"
    by (simp add: re_match_pattern g)
  moreover have "(Map.empty(1 \<mapsto> n, 2 \<mapsto> z, 3 \<mapsto> p, 4 \<mapsto> q, 5 \<mapsto> f)) (1::nat) = Some n"
    by simp
  moreover have "body st l = Inr \<lparr>idx = idx st + 1, stdout = stdout st @ [record_of (idx st) l]\<rparr>"
    using g by (rule body_match)
  moreover have "fields (last (stdout \<lparr>idx = idx st + 1,
      stdout = stdout st @ [record_of (idx st) l]\<rparr>)) ! 2 = ''OP_'' @ n"
    by (simp add: fields_record_of [OF g])
  ultimately show ?thesis by blast
qed

text \<open>
  C2. When the only matching line of the input is, once stripped,
  \<^verbatim>\<open>DEF(push_i32, 5, 0, 1, i32)\<close>, the output is the single record
  \<^verbatim>\<open>0<TAB>0x00<TAB>OP_push_i32<TAB>size=5<TAB>pop=0<TAB>push=1<TAB>fmt=i32\<close> and the run
  ends without error. For every matching line the third field of the record is the
  literal \<^verbatim>\<open>OP_\<close> followed by the captured name, whatever the name is.
\<close>

theorem scenario_a:
  "(map strip (filter matches (split_on NL text)) = [''DEF(push_i32, 5, 0, 1, i32)''] \<longrightarrow>
      script (Some text) =
        ([(''0'' @ [TAB] @ ''0x00'' @ [TAB] @ ''OP_push_i32'' @ [TAB] @ ''size=5'' @ [TAB] @ ''pop=0'' @ [TAB] @ ''push=1'' @ [TAB] @ ''fmt=i32'')], None)) \<and>
   (matches l \<longrightarrow>
      (\<exists>m name st'. re_match pattern (strip l) = Some m \<and> m 1 = Some name \<and>
         body st l = Inr st' \<and> fields (last (stdout st')) ! 2 = ''OP_'' @ name))"
proof (intro conjI impI)
  assume a: "map strip (filter matches (split_on NL text)) = [''DEF(push_i32, 5, 0, 1, i32)'']"
  then obtain l0 where f: "filter matches (split_on NL text) = [l0]"
    and s: "strip l0 = ''DEF(push_i32, 5, 0, 1, i32)''"
    by auto
  have "strip ''DEF(push_i32, 5, 0, 1, i32)'' = ''DEF(push_i32, 5, 0, 1, i32)''"
    by code_simp
  then have "record_of 0 l0 = record_of 0 ''DEF(push_i32, 5, 0, 1, i32)''"
    using s by (intro record_of_strip) simp
  also have "\<dots> = (''0'' @ [TAB] @ ''0x00'' @ [TAB] @ ''OP_push_i32'' @ [TAB] @ ''size=5'' @ [TAB] @ ''pop=0'' @ [TAB] @ ''push=1'' @ [TAB] @ ''fmt=i32'')"
    by code_simp
  finally show "script (Some text) = ([(''0'' @ [TAB] @ ''0x00'' @ [TAB] @ ''OP_push_i32'' @ [TAB] @ ''size=5'' @ [TAB] @ ''pop=0'' @ [TAB] @ ''push=1'' @ [TAB] @ ''fmt=i32'')], None)"
    by (simp add: script_eq f)
next
  assume "matches l"
  then show "\<exists>m name st'. re_match pattern (strip l) = Some m \<and> m 1 = Some name \<and>
         body st l = Inr st' \<and> fields (last (stdout st')) ! 2 = ''OP_'' @ name"
    by (rule body_tagged_name)
qed

theorem scenario_a_witness:
  "map strip (filter matches (split_on NL (''/* opcodes */'' @ [NL] @ [NL] @ ''   DEF(push_i32, 5, 0, 1, i32) '' @ [TAB] @ [NL] @ ''#undef DEF'' @ [NL]))) =
     [''DEF(push_i32, 5, 0, 1, i32)''] \<and>
   script (Some (''/* opcodes */'' @ [NL] @ [NL] @ ''   DEF(push_i32, 5, 0, 1, i32) '' @ [TAB] @ [NL] @ ''#undef DEF'' @ [NL])) =
     ([(''0'' @ [TAB] @ ''0x00'' @ [TAB] @ ''OP_push_i32'' @ [TAB] @ ''size=5'' @ [TAB] @ ''pop=0'' @ [TAB] @ ''push=1'' @ [TAB] @ ''fmt=i32'')], None) \<and>
   matches ''  def ( _x9 , 12,-3 , 4, none) /* x */'' \<and>
   (\<exists>m name st'. re_match pattern (strip ''  def ( _x9 , 12,-3 , 4, none) /* x */'') = Some m \<and> m 1 = Some name \<and>
      body \<lparr>idx = 7, stdout = []\<rparr> ''  def ( _x9 , 12,-3 , 4, none) /* x */'' = Inr st' \<and>
      fields (last (stdout st')) ! 2 = ''OP_'' @ name)"
proof -
  have h1: "map strip (filter matches (split_on NL (''/* opcodes */'' @ [NL] @ [NL] @ ''   DEF(push_i32, 5, 0, 1, i32) '' @ [TAB] @ [NL] @ ''#undef DEF'' @ [NL]))) =
     [''DEF(push_i32, 5, 0, 1, i32)'']"
    by code_simp
  have h2: "matches ''  def ( _x9 , 12,-3 , 4, none) /* x */''"
    by code_simp
  note c = scenario_a [of "(''/* opcodes */'' @ [NL] @ [NL] @ ''   DEF(push_i32, 5, 0, 1, i32) '' @ [TAB] @ [NL] @ ''#undef DEF'' @ [NL])" "''  def ( _x9 , 12,-3 , 4, none) /* x */''"
      "\<lparr>idx = 7, stdout = []\<rparr>"]
  show ?thesis
    using h1 h2 c [THEN conjunct1, rule_format, OF h1] c [THEN conjunct2, rule_format, OF h2]
    by (intro conjI)
qed

lemma fields_script_out:
  assumes "i < length (fst (script (Some text)))"
  shows "fields (fst (script (Some text)) ! i) ! 0 = fmt_d i"
    and "fields (fst (script (Some text)) ! i) ! 1 = ''0x'' @ fmt_02X i"
proof -
  let ?ls = "filter matches (split_on NL text)"
  have i: "i < length ?ls"
    using assms by (simp add: length_script_out)
  then have "matches (?ls ! i)"
    by (rule filter_nth_matches)
  then obtain n z p q f r where g: "macro_grammar (strip (?ls ! i)) = Some (n, z, p, q, f, r)"
    by (auto simp: matches_grammar)
  have "fst (script (Some text)) ! i = record_of i (?ls ! i)"
    using i by (rule script_out_nth)
  then show "fields (fst (script (Some text)) ! i) ! 0 = fmt_d i"
    and "fields (fst (script (Some text)) ! i) ! 1 = ''0x'' @ fmt_02X i"
    by (simp_all add: fields_record_of [OF g])
qed

lemma split_on_copies:
  "sep \<notin> set l \<Longrightarrow> split_on sep (concat (replicate n (l @ [sep]))) = replicate n l @ [[]]"
  by (induction n) (simp_all add: split_on_append)

lemma script_copies:
  assumes "matches l" and "NL \<notin> set l"
  shows "length (fst (script (Some (concat (replicate n (l @ [NL])))))) = n"
proof -
  have "\<not> matches []"
    by code_simp
  then have "filter matches (replicate n l @ [[]]) = replicate n l"
    using assms(1) by simp
  then show ?thesis
    using assms(2) by (simp add: length_script_out split_on_copies)
qed

text \<open>
  C3. In every record the script prints, the first field is the decimal rendering of the
  record's index and the second field is \<^verbatim>\<open>0x\<close> followed by the index in uppercase
  hexadecimal: the digits are among \<^verbatim>\<open>0123456789ABCDEF\<close>, their value in base 16 is the
  index (nothing is cut off), there are exactly two of them when the index is below 256
  and more than two when it is 256 or more. Index 255 renders as \<^verbatim>\<open>FF\<close>, index 256 as
  \<^verbatim>\<open>100\<close>.
\<close>

theorem hex_field:
  assumes "i < length (fst (script (Some text)))"
  shows "fields (fst (script (Some text)) ! i) ! 0 = fmt_d i \<and>
         fields (fst (script (Some text)) ! i) ! 1 = ''0x'' @ fmt_02X i \<and>
         set (fmt_02X i) \<subseteq> set ''0123456789ABCDEF'' \<and>
         read_nat 16 (fmt_02X i) = i \<and>
         (if i < 256 then length (fmt_02X i) = 2 else 2 < length (fmt_02X i)) \<and>
         fmt_02X 255 = ''FF'' \<and> fmt_02X 256 = ''100''"
proof -
  have "if i < 256 then length (fmt_02X i) = 2 else 2 < length (fmt_02X i)"
    using length_fmt_02X(1) [of i] length_fmt_02X(2) [of i] by auto
  moreover have "fmt_02X 255 = ''FF''" and "fmt_02X 256 = ''100''"
    by code_simp+
  ultimately show ?thesis
    using fields_script_out [OF assms] set_fmt_02X [of i] read_fmt_02X [of i] by simp
qed

theorem hex_field_witness:
  "length (fst (script (Some (concat (replicate 300 (''DEF(nop, 1, 0, 0, none)'' @ [NL])))))) = 300 \<and>
   fields (fst (script (Some (concat (replicate 300 (''DEF(nop, 1, 0, 0, none)'' @ [NL]))))) ! 255) ! 1 = ''0xFF'' \<and>
   fields (fst (script (Some (concat (replicate 300 (''DEF(nop, 1, 0, 0, none)'' @ [NL]))))) ! 256) ! 1 = ''0x100'' \<and>
   fields (fst (script (Some (concat (replicate 300 (''DEF(nop, 1, 0, 0, none)'' @ [NL]))))) ! 299) ! 0 = ''299'' \<and>
   fields (fst (script (Some (concat (replicate 300 (''DEF(nop, 1, 0, 0, none)'' @ [NL]))))) ! 299) ! 1 = ''0x12B''"
proof -
  have m: "matches ''DEF(nop, 1, 0, 0, none)''" and n: "NL \<notin> set ''DEF(nop, 1, 0, 0, none)''"
    by code_simp+
  have len: "length (fst (script (Some (concat (replicate 300 (''DEF(nop, 1, 0, 0, none)'' @ [NL])))))) = 300"
    using m n by (rule script_copies)
  have f: "fmt_02X 299 = ''12B''" "fmt_d 299 = ''299''"
    by code_simp+
  have a: "(255::nat) < 300" and b: "(256::nat) < 300" and c: "(299::nat) < 300"
    by simp_all
  show ?thesis
    using len hex_field [of 255 "concat (replicate 300 (''DEF(nop, 1, 0, 0, none)'' @ [NL]))", unfolded len, OF a]
      hex_field [of 256 "concat (replicate 300 (''DEF(nop, 1, 0, 0, none)'' @ [NL]))", unfolded len, OF b]
      hex_field [of 299 "concat (replicate 300 (''DEF(nop, 1, 0, 0, none)'' @ [NL]))", unfolded len, OF c] f
    by simp
qed

lemma count_dropWhile: "length (filter P (dropWhile Q s)) \<le> length (filter P s)"
proof -
  have "length (filter P s) =
      length (filter P (takeWhile Q s)) + length (filter P (dropWhile Q s))"
    by (metis filter_append length_append takeWhile_dropWhile_id)
  then show ?thesis by simp
qed

lemma count_strip: "length (filter P (strip s)) \<le> length (filter P s)"
proof -
  have "length (filter P (strip s)) =
      length (filter P (dropWhile is_space (rev (dropWhile is_space s))))"
    by (simp add: strip_def rev_filter [symmetric])
  also have "\<dots> \<le> length (filter P (rev (dropWhile is_space s)))"
    by (rule count_dropWhile)
  also have "\<dots> = length (filter P (dropWhile is_space s))"
    by (simp add: rev_filter [symmetric])
  also have "\<dots> \<le> length (filter P s)"
    by (rule count_dropWhile)
  finally show ?thesis .
qed

lemma grammar_commas:
  assumes "macro_grammar s = Some t"
  shows "4 \<le> length (filter (\<lambda>c. c = CHR '','') s)"
proof -
  obtain n z p q f r where "t = (n, z, p, q, f, r)"
    by (cases t) auto
  with assms have "macro_grammar s = Some (n, z, p, q, f, r)"
    by simp
  from grammar_shape [OF this] obtain tok w1 w2 w3 w4 w5 w6 w7 w8 w9 w10 where
    "s = tok @ w1 @ ''('' @ w2 @ n @ w3 @ '','' @ w4 @ z @ w5 @ '','' @ w6 @ p @ w7 @
               '','' @ w8 @ q @ w9 @ '','' @ w10 @ f @ r"
    by blast
  then show ?thesis by simp
qed

lemma few_commas_no_match:
  assumes "length (filter (\<lambda>c. c = CHR '','') l) < 4"
  shows "macro_grammar (strip l) = None"
proof (rule ccontr)
  assume "macro_grammar (strip l) \<noteq> None"
  then obtain t where "macro_grammar (strip l) = Some t" by auto
  from grammar_commas [OF this] count_strip [of "\<lambda>c. c = CHR '',''" l] assms
  show False by simp
qed

text \<open>
  C4. A line that, once stripped, does not have the shape of the five-field macro grammar
  is not a match of the pattern, and the loop body leaves the state as it is: nothing is
  printed, no error is raised, the counter keeps its value. A line with fewer than four
  commas (four or fewer arguments) is such a line; so are the empty line, a comment
  line, a macro with four arguments, and macros whose integer fields are malformed.
\<close>

theorem skip_non_match:
  "(macro_grammar (strip l) = None \<longrightarrow> \<not> matches l \<and> body st l = Inr st) \<and>
   (length (filter (\<lambda>c. c = CHR '','') l) < 4 \<longrightarrow> \<not> matches l \<and> body st l = Inr st) \<and>
   macro_grammar (strip []) = None \<and>
   macro_grammar (strip ''// DEF(foo, 1, 0, 0, none)'') = None \<and>
   macro_grammar (strip ''DEF(foo, 1, 0, 0)'') = None \<and>
   macro_grammar (strip ''DEF(foo, 0x1, 0, 0, none)'') = None \<and>
   macro_grammar (strip ''DEF(foo, 1, +2, 0, none)'') = None \<and>
   macro_grammar (strip ''DEF(foo, 1, 2, - 3, none)'') = None \<and>
   macro_grammar (strip ''DEF(foo, , 2, 3, none)'') = None"
proof -
  have a: "\<not> matches l \<and> body st l = Inr st" if "macro_grammar (strip l) = None"
    using that by (simp add: matches_grammar body_no_match)
  have b: "\<not> matches l \<and> body st l = Inr st" if "length (filter (\<lambda>c. c = CHR '','') l) < 4"
    by (rule a [OF few_commas_no_match [OF that]])
  have c: "macro_grammar (strip []) = None"
    "macro_grammar (strip ''// DEF(foo, 1, 0, 0, none)'') = None"
    "macro_grammar (strip ''DEF(foo, 1, 0, 0)'') = None"
    "macro_grammar (strip ''DEF(foo, 0x1, 0, 0, none)'') = None"
    "macro_grammar (strip ''DEF(foo, 1, +2, 0, none)'') = None"
    "macro_grammar (strip ''DEF(foo, 1, 2, - 3, none)'') = None"
    "macro_grammar (strip ''DEF(foo, , 2, 3, none)'') = None"
    by code_simp+
  have a': "macro_grammar (strip l) = None \<longrightarrow> \<not> matches l \<and> body st l = Inr st"
    by (rule impI) (rule a)
  have b': "length (filter (\<lambda>c. c = CHR '','') l) < 4 \<longrightarrow> \<not> matches l \<and> body st l = Inr st"
    by (rule impI) (rule b)
  show ?thesis
    by (intro conjI a' b' c)
qed

theorem skip_non_match_witness:
  "macro_grammar (strip ''#define DEF(a, b, c, d, e) 1'') = None \<and>
   \<not> matches ''#define DEF(a, b, c, d, e) 1'' \<and>
   body \<lparr>idx = 3, stdout = [''x'']\<rparr> ''#define DEF(a, b, c, d, e) 1'' =
     Inr \<lparr>idx = 3, stdout = [''x'']\<rparr> \<and>
   length (filter (\<lambda>c. c = CHR '','') ''DEF(foo, 1, 0, 0)'') < 4 \<and>
   body \<lparr>idx = 3, stdout = [''x'']\<rparr> ''DEF(foo, 1, 0, 0)'' = Inr \<lparr>idx = 3, stdout = [''x'']\<rparr>"
proof -
  have h1: "macro_grammar (strip ''#define DEF(a, b, c, d, e) 1'') = None"
    by code_simp
  have h2: "length (filter (\<lambda>c. c = CHR '','') ''DEF(foo, 1, 0, 0)'') < 4"
    by simp
  note c1 = skip_non_match [of "''#define DEF(a, b, c, d, e) 1''" "\<lparr>idx = 3, stdout = [''x'']\<rparr>",
      THEN conjunct1, rule_format, OF h1]
  note c2 = skip_non_match [of "''DEF(foo, 1, 0, 0)''" "\<lparr>idx = 3, stdout = [''x'']\<rparr>",
      THEN conjunct2, THEN conjunct1, rule_format, OF h2]
  show ?thesis
    using h1 h2 c1 c2 by (intro conjI) simp_all
qed

lemma dropWhile_keep: "\<not> P y \<Longrightarrow> dropWhile P (a @ y # b) = dropWhile P a @ y # b"
  by (induction a) auto

lemma dropWhile_all: "list_all P w \<Longrightarrow> dropWhile P (w @ s) = dropWhile P s"
  by (induction w) auto

lemma rstrip_keep:
  "\<not> is_space y \<Longrightarrow>
     rev (dropWhile is_space (rev (a @ y # b))) = a @ y # rev (dropWhile is_space (rev b))"
  by (simp add: dropWhile_keep)

lemma strip_ws_prefix: "list_all is_space w \<Longrightarrow> strip (w @ s) = strip s"
  by (simp add: strip_def dropWhile_all)

lemma strip_Cons:
  "\<not> is_space x \<Longrightarrow> strip (x # s) = x # rev (dropWhile is_space (rev s))"
  using rstrip_keep [of x "[]" s] by (simp add: strip_def)



lemma takeWhile_stop:
  "list_all p a \<Longrightarrow> b = [] \<or> \<not> p (hd b) \<Longrightarrow>
     takeWhile p (a @ b) = a \<and> dropWhile p (a @ b) = b"
  by (induction a) (cases b; auto)+

lemma many1_stop:
  "a \<noteq> [] \<Longrightarrow> list_all p a \<Longrightarrow> b = [] \<or> \<not> p (hd b) \<Longrightarrow> many1 p (a @ b) = Some (a, b)"
  using takeWhile_stop [of p a b] by (simp add: many1_def)










lemma strip_word3:
  assumes "list_all is_space w" "\<not> is_space x" "\<not> is_space z"
  shows "strip (w @ [x, y, z] @ b) = [x, y, z] @ rev (dropWhile is_space (rev b))"
proof -
  have "strip (w @ [x, y, z] @ b) = strip (x # [y] @ z # b)"
    using strip_ws_prefix [OF assms(1)] by simp
  also have "\<dots> = x # rev (dropWhile is_space (rev ([y] @ z # b)))"
    by (rule strip_Cons [OF assms(2)])
  also have "\<dots> = x # [y] @ z # rev (dropWhile is_space (rev b))"
    by (simp only: rstrip_keep [OF assms(3)])
  finally show ?thesis by simp
qed

lemma strip_token:
  assumes "list_all is_space w"
  shows "strip (w @ ''DEF'' @ b) = ''DEF'' @ rev (dropWhile is_space (rev b))"
    and "strip (w @ ''def'' @ b) = ''def'' @ rev (dropWhile is_space (rev b))"
  using strip_word3 [OF assms, of "CHR ''D''" "CHR ''F''" "CHR ''E''" b]
    strip_word3 [OF assms, of "CHR ''d''" "CHR ''f''" "CHR ''e''" b]
  by (simp_all add: is_space_def)

lemma grammar_token_case: "macro_grammar (''DEF'' @ t) = macro_grammar (''def'' @ t)"
  by (simp add: macro_grammar_def macro_token_def)

lemma body_strip: "strip l = strip l' \<Longrightarrow> body st l = body st l'"
  by (simp add: body_unfold)

text \<open>
  C7. The uppercase and the lowercase macro token are equivalent triggers: for every
  rest of line \<open>b\<close> (and leading whitespace \<open>w\<close>), the line with \<^verbatim>\<open>DEF\<close> matches if and only
  if the line with \<^verbatim>\<open>def\<close> does, the captured groups are the same, and the loop body
  leaves the same state, that is, prints the same record and advances the counter alike.
\<close>

theorem token_case_equiv:
  assumes "list_all is_space w"
  shows "(matches (w @ ''DEF'' @ b) \<longleftrightarrow> matches (w @ ''def'' @ b)) \<and>
         re_match pattern (strip (w @ ''DEF'' @ b)) = re_match pattern (strip (w @ ''def'' @ b)) \<and>
         body st (w @ ''DEF'' @ b) = body st (w @ ''def'' @ b)"
proof -
  have g: "macro_grammar (strip (w @ ''DEF'' @ b)) = macro_grammar (strip (w @ ''def'' @ b))"
    unfolding strip_token [OF assms] by (rule grammar_token_case)
  have r: "re_match pattern (strip (w @ ''DEF'' @ b)) = re_match pattern (strip (w @ ''def'' @ b))"
    unfolding re_match_pattern g ..
  have "body st (w @ ''DEF'' @ b) = body st (w @ ''def'' @ b)"
    unfolding body_unfold Let_def r by (rule refl)
  then show ?thesis
    using r by (simp add: matches_def)
qed

theorem token_case_equiv_witness:
  "list_all is_space [TAB, CHR '' ''] \<and>
   matches ([TAB, CHR '' ''] @ ''def'' @ ''(add, 1, 2, 1, none)'') \<and>
   body \<lparr>idx = 0, stdout = []\<rparr> ([TAB, CHR '' ''] @ ''def'' @ ''(add, 1, 2, 1, none)'') =
     Inr \<lparr>idx = 1, stdout = [''0'' @ [TAB] @ ''0x00'' @ [TAB] @ ''OP_add'' @ [TAB] @ ''size=1'' @
       [TAB] @ ''pop=2'' @ [TAB] @ ''push=1'' @ [TAB] @ ''fmt=none'']\<rparr>"
proof -
  have h: "list_all is_space [TAB, CHR '' '']"
    by code_simp
  have u: "matches ([TAB, CHR '' ''] @ ''DEF'' @ ''(add, 1, 2, 1, none)'')"
    by code_simp
  have v: "body \<lparr>idx = 0, stdout = []\<rparr> ([TAB, CHR '' ''] @ ''DEF'' @ ''(add, 1, 2, 1, none)'') =
     Inr \<lparr>idx = 1, stdout = [''0'' @ [TAB] @ ''0x00'' @ [TAB] @ ''OP_add'' @ [TAB] @ ''size=1'' @
       [TAB] @ ''pop=2'' @ [TAB] @ ''push=1'' @ [TAB] @ ''fmt=none'']\<rparr>"
    by code_simp
  note c = token_case_equiv [OF h, of "''(add, 1, 2, 1, none)''" "\<lparr>idx = 0, stdout = []\<rparr>"]
  from c u have "matches ([TAB, CHR '' ''] @ ''def'' @ ''(add, 1, 2, 1, none)'')"
    by blast
  moreover from c v have
    "body \<lparr>idx = 0, stdout = []\<rparr> ([TAB, CHR '' ''] @ ''def'' @ ''(add, 1, 2, 1, none)'') =
     Inr \<lparr>idx = 1, stdout = [''0'' @ [TAB] @ ''0x00'' @ [TAB] @ ''OP_add'' @ [TAB] @ ''size=1'' @
       [TAB] @ ''pop=2'' @ [TAB] @ ''push=1'' @ [TAB] @ ''fmt=none'']\<rparr>"
    by (elim conjE) (erule subst)
  ultimately show ?thesis
    using h by (intro conjI)
qed

lemma mixed_token_no_parse:
  "tok \<in> set mixed_case_tokens \<Longrightarrow> macro_grammar (tok @ t) = None"
  by (auto simp: mixed_case_tokens_def macro_grammar_def macro_token_def)

lemma strip_mixed_token:
  assumes "tok \<in> set mixed_case_tokens" "list_all is_space w"
  shows "strip (w @ tok @ b) = tok @ rev (dropWhile is_space (rev b))"
proof -
  have ns: "\<not> is_space (CHR ''D'')" "\<not> is_space (CHR ''d'')" "\<not> is_space (CHR ''F'')"
    "\<not> is_space (CHR ''f'')"
    by (simp_all add: is_space_def)
  from assms(1) consider "tok = ''Def''" | "tok = ''dEf''" | "tok = ''deF''" | "tok = ''DEf''"
    | "tok = ''DeF''" | "tok = ''dEF''"
    by (auto simp: mixed_case_tokens_def)
  then show ?thesis
  proof cases
    case 1
    then show ?thesis using strip_word3 [OF assms(2) ns(1) ns(4), of "CHR ''e''" b] by simp
  next
    case 2
    then show ?thesis using strip_word3 [OF assms(2) ns(2) ns(4), of "CHR ''E''" b] by simp
  next
    case 3
    then show ?thesis using strip_word3 [OF assms(2) ns(2) ns(3), of "CHR ''e''" b] by simp
  next
    case 4
    then show ?thesis using strip_word3 [OF assms(2) ns(1) ns(4), of "CHR ''E''" b] by simp
  next
    case 5
    then show ?thesis using strip_word3 [OF assms(2) ns(1) ns(3), of "CHR ''e''" b] by simp
  next
    case 6
    then show ?thesis using strip_word3 [OF assms(2) ns(2) ns(3), of "CHR ''E''" b] by simp
  qed
qed

text \<open>
  C10. A line whose leading token is a mixed-case variant of the macro token
  (\<^verbatim>\<open>Def\<close>, \<^verbatim>\<open>dEf\<close>, \<^verbatim>\<open>deF\<close>, \<^verbatim>\<open>DEf\<close>, \<^verbatim>\<open>DeF\<close>, \<^verbatim>\<open>dEF\<close>) is not a match, whatever
  follows the token: the loop body prints nothing and leaves the counter as it is.
\<close>

theorem mixed_case_no_match:
  assumes "tok \<in> set mixed_case_tokens" and "list_all is_space w"
  shows "\<not> matches (w @ tok @ b) \<and> body st (w @ tok @ b) = Inr st"
proof -
  have "macro_grammar (strip (w @ tok @ b)) = None"
    unfolding strip_mixed_token [OF assms] using assms(1) by (rule mixed_token_no_parse)
  then show ?thesis
    by (simp add: matches_grammar body_no_match)
qed

theorem mixed_case_no_match_witness:
  "''DeF'' \<in> set mixed_case_tokens \<and> list_all is_space '' '' \<and>
   matches ('' '' @ ''DEF'' @ ''(add, 1, 2, 1, none)'') \<and>
   \<not> matches ('' '' @ ''DeF'' @ ''(add, 1, 2, 1, none)'') \<and>
   body \<lparr>idx = 5, stdout = []\<rparr> ('' '' @ ''DeF'' @ ''(add, 1, 2, 1, none)'') =
     Inr \<lparr>idx = 5, stdout = []\<rparr>"
proof -
  have h1: "''DeF'' \<in> set mixed_case_tokens" and h2: "list_all is_space '' ''"
    and h3: "matches ('' '' @ ''DEF'' @ ''(add, 1, 2, 1, none)'')"
    by code_simp+
  show ?thesis
    using h1 h2 h3
      mixed_case_no_match [OF h1 h2, of "''(add, 1, 2, 1, none)''" "\<lparr>idx = 5, stdout = []\<rparr>"]
    by (intro conjI) simp_all
qed

lemma dropWhile_nonempty_append:
  "dropWhile P a \<noteq> [] \<Longrightarrow> dropWhile P (a @ b) = dropWhile P a @ b"
  by (induction a) auto

lemma macro_token_append:
  assumes "macro_token s = Some t"
  shows "macro_token (s @ u) = Some (t @ u)"
proof -
  from macro_token_Some [OF assms] have "s @ u = ''DEF'' @ t @ u \<or> s @ u = ''def'' @ t @ u"
    by auto
  then show ?thesis
    by (auto simp: macro_token_def)
qed

lemma expect_ws_append:
  assumes "expect k (skip_ws s) = Some t"
  shows "expect k (skip_ws (s @ u)) = Some (t @ u)"
proof -
  have "dropWhile is_space s = k # t"
    using assms by (auto simp: expect_def skip_ws_def split: list.splits if_splits)
  then have "dropWhile is_space (s @ u) = k # t @ u"
    using dropWhile_nonempty_append [of is_space s u] by simp
  then show ?thesis
    by (simp add: expect_def skip_ws_def)
qed

lemma expect_ws_nonempty: "expect k (skip_ws s) = Some t \<Longrightarrow> s \<noteq> []"
  by (auto simp: expect_def skip_ws_def)

lemma many1_ws_append:
  assumes "many1 p (skip_ws s) = Some (f, t)" and "t \<noteq> [] \<or> u = [] \<or> \<not> p (hd u)"
  shows "many1 p (skip_ws (s @ u)) = Some (f, t @ u)"
proof -
  note m = many1_Some [OF assms(1)]
  have "dropWhile is_space s = f @ t"
    using m by (simp add: skip_ws_def)
  moreover have "f @ t \<noteq> []"
    using m by simp
  ultimately have "dropWhile is_space (s @ u) = f @ t @ u"
    using dropWhile_nonempty_append [of is_space s u] by simp
  moreover have "t @ u = [] \<or> \<not> p (hd (t @ u))"
    using m assms(2) by (cases t) auto
  ultimately show ?thesis
    using many1_stop [of f p "t @ u"] m by (simp add: skip_ws_def)
qed

lemma signed_ws_append:
  assumes "signed_integer (skip_ws s) = Some (f, t)" and "t \<noteq> []"
  shows "signed_integer (skip_ws (s @ u)) = Some (f, t @ u)"
proof -
  note m = signed_Some [OF assms(1)]
  then obtain d where d: "d \<noteq> []" "list_all is_digit d" "f = d \<or> f = CHR ''-'' # d"
    by blast
  have "dropWhile is_space s = f @ t"
    using m by (simp add: skip_ws_def)
  moreover have "f @ t \<noteq> []"
    using assms(2) by simp
  ultimately have sk: "skip_ws (s @ u) = f @ t @ u"
    using dropWhile_nonempty_append [of is_space s u] by (simp add: skip_ws_def)
  have stop: "t @ u = [] \<or> \<not> is_digit (hd (t @ u))"
    using m assms(2) by (cases t) auto
  have md: "many1 is_digit (d @ t @ u) = Some (d, t @ u)"
    using many1_stop [OF d(1,2) stop] .
  from d(3) show ?thesis
  proof
    assume f: "f = d"
    obtain x xs where "d = x # xs" using d(1) by (cases d) auto
    then have "x \<noteq> CHR ''-''" using d(2) lit_classes(6) by auto
    then show ?thesis
      using md f \<open>d = x # xs\<close> by (simp add: sk signed_integer_def unsigned_integer_def)
  next
    assume f: "f = CHR ''-'' # d"
    then show ?thesis
      using md by (simp add: sk signed_integer_def unsigned_integer_def)
  qed
qed

lemma grammar_append:
  assumes "macro_grammar s = Some (n, z, p, q, f, r)" and "u = [] \<or> \<not> is_word (hd u)"
  shows "macro_grammar (s @ u) = Some (n, z, p, q, f, r @ u)"
proof -
  from assms(1) obtain s1 s2 s3 s4 s5 s6 s7 s8 s9 s10 where
    st: "macro_token s = Some s1"
      "expect (CHR ''('') (skip_ws s1) = Some s2"
      "bare_word (skip_ws s2) = Some (n, s3)"
      "expect (CHR '','') (skip_ws s3) = Some s4"
      "unsigned_integer (skip_ws s4) = Some (z, s5)"
      "expect (CHR '','') (skip_ws s5) = Some s6"
      "signed_integer (skip_ws s6) = Some (p, s7)"
      "expect (CHR '','') (skip_ws s7) = Some s8"
      "signed_integer (skip_ws s8) = Some (q, s9)"
      "expect (CHR '','') (skip_ws s9) = Some s10"
      "bare_word (skip_ws s10) = Some (f, r)"
    by (rule grammar_stepsE)
  note ne = expect_ws_nonempty [OF st(4)] expect_ws_nonempty [OF st(6)]
    expect_ws_nonempty [OF st(8)] expect_ws_nonempty [OF st(10)]
  show ?thesis
  proof (rule grammar_stepsI)
    show "macro_token (s @ u) = Some (s1 @ u)"
      using st(1) by (rule macro_token_append)
    show "expect (CHR ''('') (skip_ws (s1 @ u)) = Some (s2 @ u)"
      using st(2) by (rule expect_ws_append)
    show "bare_word (skip_ws (s2 @ u)) = Some (n, s3 @ u)"
      using many1_ws_append [of is_word s2 n s3 u] st(3) ne(1) by (simp add: bare_word_def)
    show "expect (CHR '','') (skip_ws (s3 @ u)) = Some (s4 @ u)"
      using st(4) by (rule expect_ws_append)
    show "unsigned_integer (skip_ws (s4 @ u)) = Some (z, s5 @ u)"
      using many1_ws_append [of is_digit s4 z s5 u] st(5) ne(2)
      by (simp add: unsigned_integer_def)
    show "expect (CHR '','') (skip_ws (s5 @ u)) = Some (s6 @ u)"
      using st(6) by (rule expect_ws_append)
    show "signed_integer (skip_ws (s6 @ u)) = Some (p, s7 @ u)"
      using st(7) ne(3) by (rule signed_ws_append)
    show "expect (CHR '','') (skip_ws (s7 @ u)) = Some (s8 @ u)"
      using st(8) by (rule expect_ws_append)
    show "signed_integer (skip_ws (s8 @ u)) = Some (q, s9 @ u)"
      using st(9) ne(4) by (rule signed_ws_append)
    show "expect (CHR '','') (skip_ws (s9 @ u)) = Some (s10 @ u)"
      using st(10) by (rule expect_ws_append)
    show "bare_word (skip_ws (s10 @ u)) = Some (f, r @ u)"
      using many1_ws_append [of is_word s10 f r u] st(11) assms(2) by (simp add: bare_word_def)
  qed
qed

lemma rstrip_decomp:
  "x = rev (dropWhile is_space (rev x)) @ rev (takeWhile is_space (rev x))"
proof -
  have "rev (takeWhile is_space (rev x) @ dropWhile is_space (rev x)) = x"
    by (simp only: takeWhile_dropWhile_id rev_rev_ident)
  then have "rev (dropWhile is_space (rev x)) @ rev (takeWhile is_space (rev x)) = x"
    by (simp only: rev_append)
  then show ?thesis by (rule sym)
qed

lemma strip_append:
  assumes "strip l \<noteq> []" and "t = [] \<or> \<not> is_word (hd t)"
  shows "\<exists>u. strip (l @ t) = strip l @ u \<and> (u = [] \<or> \<not> is_word (hd u))"
proof -
  define a where "a = dropWhile is_space l"
  have sl: "strip l = rev (dropWhile is_space (rev a))"
    by (simp add: strip_def a_def)
  have "a \<noteq> []"
    using assms(1) sl by auto
  then have at: "dropWhile is_space (l @ t) = a @ t"
    unfolding a_def by (rule dropWhile_nonempty_append)
  have slt: "strip (l @ t) = rev (dropWhile is_space (rev t @ rev a))"
    by (simp add: strip_def at)
  show ?thesis
  proof (cases "dropWhile is_space (rev t) = []")
    case True
    then have "list_all is_space (rev t)"
      by (simp add: list_all_iff dropWhile_eq_Nil_conv)
    then have "strip (l @ t) = strip l @ []"
      by (simp add: slt sl dropWhile_all)
    then show ?thesis by blast
  next
    case False
    define rt where "rt = rev (dropWhile is_space (rev t))"
    define ws where "ws = rev (takeWhile is_space (rev a))"
    have rt: "rt \<noteq> []" and t: "t = rt @ rev (takeWhile is_space (rev t))"
      using False rstrip_decomp [of t] by (simp_all add: rt_def)
    have a: "a = strip l @ ws"
      using rstrip_decomp [of a] by (simp add: sl ws_def)
    have "strip (l @ t) = a @ rt"
      using dropWhile_nonempty_append [OF False, of "rev a"] by (simp add: slt rt_def)
    then have eq: "strip (l @ t) = strip l @ ws @ rt"
      using a by simp
    have "\<not> is_word (hd (ws @ rt))"
    proof (cases ws)
      case Nil
      have "hd rt = hd t"
        using rt t by (metis hd_append2)
      moreover have "t \<noteq> []"
        using rt t by auto
      ultimately show ?thesis
        using assms(2) Nil by simp
    next
      case (Cons x xs)
      have "list_all is_space ws"
        using all_takeWhile [of is_space "rev a"] by (simp add: ws_def list_all_iff)
      then have "is_space x"
        using Cons by simp
      then show ?thesis
        using Cons space_not_word by simp
    qed
    then show ?thesis
      using eq by blast
  qed
qed

lemma grammar_strip_nonempty: "macro_grammar s = Some t \<Longrightarrow> s \<noteq> []"
  by (auto simp: macro_grammar_def macro_token_def)

lemma body_trailing:
  assumes "matches l" and "t = [] \<or> \<not> is_word (hd t)"
  shows "matches (l @ t) \<and> body st (l @ t) = body st l"
proof -
  from assms(1) obtain n z p q f r where g: "macro_grammar (strip l) = Some (n, z, p, q, f, r)"
    by (auto simp: matches_grammar)
  have "strip l \<noteq> []"
    using g by (rule grammar_strip_nonempty)
  from strip_append [OF this assms(2)] obtain u where
    u: "strip (l @ t) = strip l @ u" "u = [] \<or> \<not> is_word (hd u)"
    by blast
  have g': "macro_grammar (strip (l @ t)) = Some (n, z, p, q, f, r @ u)"
    unfolding u(1) using g u(2) by (rule grammar_append)
  have "record_of i (l @ t) = record_of i l" for i
    by (simp add: record_of_def g g')
  then show ?thesis
    using g g' by (simp add: body_cases matches_grammar)
qed

lemma match_starts_with_token:
  assumes "matches l"
  shows "prefix ''DEF'' (strip l) \<or> prefix ''def'' (strip l)"
proof -
  from assms obtain t where "macro_grammar (strip l) = Some t"
    by (auto simp: matches_grammar)
  then obtain s1 where "macro_token (strip l) = Some s1"
    by (auto simp: macro_grammar_def bind_eq_Some_conv)
  then show ?thesis
    by (auto simp: macro_token_def split: if_splits)
qed

text \<open>
  C6. The match is anchored to the start of the stripped line and open at its end. A line
  matches only if, once stripped, it begins with the macro token: anything else in front
  of the token (a comment marker, say) prevents the match. Content that follows the fifth
  field of a matching line (content that does not continue the field, so it is empty or
  does not start with a word character) does not prevent the match and changes neither
  the record nor the counter. Scenario B: the comment line gives nothing and the
  lowercase macro gives the single record with index 0 and the tagged name \<^verbatim>\<open>OP_bar\<close>.
\<close>

theorem anchored_at_start_only:
  "(matches l \<longrightarrow> prefix ''DEF'' (strip l) \<or> prefix ''def'' (strip l)) \<and>
   (matches l \<and> (t = [] \<or> \<not> is_word (hd t)) \<longrightarrow>
      matches (l @ t) \<and> body st (l @ t) = body st l) \<and>
   script (Some (''// DEF(foo, 1, 0, 0, none)'' @ [NL] @ ''def(bar, 2, -1, 1, none)'')) =
     ([(''0'' @ [TAB] @ ''0x00'' @ [TAB] @ ''OP_bar'' @ [TAB] @ ''size=2'' @ [TAB] @ ''pop=-1'' @ [TAB] @ ''push=1'' @ [TAB] @ ''fmt=none'')], None)"
proof (intro conjI impI)
  assume "matches l"
  then show "prefix ''DEF'' (strip l) \<or> prefix ''def'' (strip l)"
    by (rule match_starts_with_token)
next
  assume a: "matches l \<and> (t = [] \<or> \<not> is_word (hd t))"
  then have "matches (l @ t) \<and> body st (l @ t) = body st l"
    by (intro body_trailing) simp_all
  then show "matches (l @ t)" and "body st (l @ t) = body st l"
    by simp_all
next
  show "script (Some (''// DEF(foo, 1, 0, 0, none)'' @ [NL] @ ''def(bar, 2, -1, 1, none)'')) =
     ([(''0'' @ [TAB] @ ''0x00'' @ [TAB] @ ''OP_bar'' @ [TAB] @ ''size=2'' @ [TAB] @ ''pop=-1'' @ [TAB] @ ''push=1'' @ [TAB] @ ''fmt=none'')], None)"
    by code_simp
qed

theorem anchored_at_start_only_witness:
  "matches ''DEF(nop, 1, 0, 0, none'' \<and> prefix ''DEF'' (strip ''DEF(nop, 1, 0, 0, none'') \<and>
   \<not> is_word (hd '') /* no operation */'') \<and>
   matches (''DEF(nop, 1, 0, 0, none'' @ '') /* no operation */'') \<and>
   body \<lparr>idx = 2, stdout = []\<rparr> (''DEF(nop, 1, 0, 0, none'' @ '') /* no operation */'') =
     Inr \<lparr>idx = 3, stdout = [(''2'' @ [TAB] @ ''0x02'' @ [TAB] @ ''OP_nop'' @ [TAB] @ ''size=1'' @ [TAB] @ ''pop=0'' @ [TAB] @ ''push=0'' @ [TAB] @ ''fmt=none'')]\<rparr>"
proof -
  have h1: "matches ''DEF(nop, 1, 0, 0, none''"
    by code_simp
  have h2: "\<not> is_word (hd '') /* no operation */'')"
    by code_simp
  have h3: "body \<lparr>idx = 2, stdout = []\<rparr> ''DEF(nop, 1, 0, 0, none'' =
     Inr \<lparr>idx = 3, stdout = [(''2'' @ [TAB] @ ''0x02'' @ [TAB] @ ''OP_nop'' @ [TAB] @ ''size=1'' @ [TAB] @ ''pop=0'' @ [TAB] @ ''push=0'' @ [TAB] @ ''fmt=none'')]\<rparr>"
    by code_simp
  note c = anchored_at_start_only [of "''DEF(nop, 1, 0, 0, none''" "'') /* no operation */''"
      "\<lparr>idx = 2, stdout = []\<rparr>"]
  have c1: "prefix ''DEF'' (strip ''DEF(nop, 1, 0, 0, none'') \<or>
      prefix ''def'' (strip ''DEF(nop, 1, 0, 0, none'')"
    using c h1 by blast
  have np: "\<not> prefix ''def'' (strip ''DEF(nop, 1, 0, 0, none'')"
    by code_simp
  have c2: "matches (''DEF(nop, 1, 0, 0, none'' @ '') /* no operation */'') \<and>
      body \<lparr>idx = 2, stdout = []\<rparr> (''DEF(nop, 1, 0, 0, none'' @ '') /* no operation */'') =
      body \<lparr>idx = 2, stdout = []\<rparr> ''DEF(nop, 1, 0, 0, none''"
    using c h1 h2 by blast
  show ?thesis
    using h1 h2 c1 np c2 h3 by (intro conjI) simp_all
qed

lemma grammar_substrings:
  assumes "macro_grammar s = Some (n, z, p, q, f, r)"
  shows "\<exists>a b c d e. s = a @ z @ b @ p @ c @ q @ d @ f @ e"
proof -
  from grammar_shape [OF assms] obtain tok w1 w2 w3 w4 w5 w6 w7 w8 w9 w10 where
    "s = tok @ w1 @ ''('' @ w2 @ n @ w3 @ '','' @ w4 @ z @ w5 @ '','' @ w6 @ p @ w7 @
               '','' @ w8 @ q @ w9 @ '','' @ w10 @ f @ r"
    by blast
  then have "s = (tok @ w1 @ ''('' @ w2 @ n @ w3 @ '','' @ w4) @ z @ (w5 @ '','' @ w6) @ p @
      (w7 @ '','' @ w8) @ q @ (w9 @ '','' @ w10) @ f @ r"
    by simp
  then show ?thesis by blast
qed

text \<open>
  C8. For every matching line the size, pop, push and format fields of the printed
  record are the captured groups, character for character: the captured texts are
  consecutive pieces of the stripped line, and the last four fields of the record are
  \<^verbatim>\<open>size=\<close>, \<^verbatim>\<open>pop=\<close>, \<^verbatim>\<open>push=\<close> and \<^verbatim>\<open>fmt=\<close> followed by exactly these texts. A captured
  \<^verbatim>\<open>-0\<close> is printed as \<^verbatim>\<open>-0\<close>.
\<close>

theorem field_fidelity:
  "(matches l \<longrightarrow>
      (\<exists>m name sz npop npush fmt a b c d e rec.
         re_match pattern (strip l) = Some m \<and>
         groups 5 m = [Some name, Some sz, Some npop, Some npush, Some fmt] \<and>
         strip l = a @ sz @ b @ npop @ c @ npush @ d @ fmt @ e \<and>
         body st l = Inr \<lparr>idx = idx st + 1, stdout = stdout st @ [rec]\<rparr> \<and>
         drop 3 (fields rec) =
           [''size='' @ sz, ''pop='' @ npop, ''push='' @ npush, ''fmt='' @ fmt])) \<and>
   body \<lparr>idx = 9, stdout = []\<rparr> ''  DEF( neg , 3 , -0,-0 , atom ) // x'' =
     Inr \<lparr>idx = 10, stdout = [(''9'' @ [TAB] @ ''0x09'' @ [TAB] @ ''OP_neg'' @ [TAB] @ ''size=3'' @ [TAB] @ ''pop=-0'' @ [TAB] @ ''push=-0'' @ [TAB] @ ''fmt=atom'')]\<rparr>"
proof (intro conjI impI)
  assume "matches l"
  then obtain n z p q f r where g: "macro_grammar (strip l) = Some (n, z, p, q, f, r)"
    by (auto simp: matches_grammar)
  from groups_pattern [OF g] obtain m where m: "re_match pattern (strip l) = Some m"
    "groups 5 m = [Some n, Some z, Some p, Some q, Some f]"
    by blast
  from grammar_substrings [OF g] obtain a b c d e where
    s: "strip l = a @ z @ b @ p @ c @ q @ d @ f @ e"
    by blast
  have b: "body st l = Inr \<lparr>idx = idx st + 1, stdout = stdout st @ [record_of (idx st) l]\<rparr>"
    using g by (rule body_match)
  have d: "drop 3 (fields (record_of (idx st) l)) =
           [''size='' @ z, ''pop='' @ p, ''push='' @ q, ''fmt='' @ f]"
    by (simp add: fields_record_of [OF g])
  show "\<exists>m name sz npop npush fmt a b c d e rec.
         re_match pattern (strip l) = Some m \<and>
         groups 5 m = [Some name, Some sz, Some npop, Some npush, Some fmt] \<and>
         strip l = a @ sz @ b @ npop @ c @ npush @ d @ fmt @ e \<and>
         body st l = Inr \<lparr>idx = idx st + 1, stdout = stdout st @ [rec]\<rparr> \<and>
         drop 3 (fields rec) =
           [''size='' @ sz, ''pop='' @ npop, ''push='' @ npush, ''fmt='' @ fmt]"
    using m s b d by blast
next
  show "body \<lparr>idx = 9, stdout = []\<rparr> ''  DEF( neg , 3 , -0,-0 , atom ) // x'' =
     Inr \<lparr>idx = 10, stdout = [(''9'' @ [TAB] @ ''0x09'' @ [TAB] @ ''OP_neg'' @ [TAB] @ ''size=3'' @ [TAB] @ ''pop=-0'' @ [TAB] @ ''push=-0'' @ [TAB] @ ''fmt=atom'')]\<rparr>"
    by code_simp
qed

theorem field_fidelity_witness:
  "matches ''  DEF( neg , 3 , -0,-0 , atom ) // x'' \<and>
   (\<exists>m name sz npop npush fmt a b c d e rec.
         re_match pattern (strip ''  DEF( neg , 3 , -0,-0 , atom ) // x'') = Some m \<and>
         groups 5 m = [Some name, Some sz, Some npop, Some npush, Some fmt] \<and>
         strip ''  DEF( neg , 3 , -0,-0 , atom ) // x'' = a @ sz @ b @ npop @ c @ npush @ d @ fmt @ e \<and>
         body \<lparr>idx = 9, stdout = []\<rparr> ''  DEF( neg , 3 , -0,-0 , atom ) // x'' =
           Inr \<lparr>idx = idx \<lparr>idx = 9, stdout = []\<rparr> + 1,
                stdout = stdout \<lparr>idx = 9, stdout = []\<rparr> @ [rec]\<rparr> \<and>
         drop 3 (fields rec) =
           [''size='' @ sz, ''pop='' @ npop, ''push='' @ npush, ''fmt='' @ fmt]) \<and>
   drop 3 (fields (''9'' @ [TAB] @ ''0x09'' @ [TAB] @ ''OP_neg'' @ [TAB] @ ''size=3'' @ [TAB] @ ''pop=-0'' @ [TAB] @ ''push=-0'' @ [TAB] @ ''fmt=atom'')) =
     [''size=3'', ''pop=-0'', ''push=-0'', ''fmt=atom'']"
proof -
  have h: "matches ''  DEF( neg , 3 , -0,-0 , atom ) // x''"
    by code_simp
  have f: "drop 3 (fields (''9'' @ [TAB] @ ''0x09'' @ [TAB] @ ''OP_neg'' @ [TAB] @ ''size=3'' @ [TAB] @ ''pop=-0'' @ [TAB] @ ''push=-0'' @ [TAB] @ ''fmt=atom'')) =
     [''size=3'', ''pop=-0'', ''push=-0'', ''fmt=atom'']"
    by code_simp
  note c = field_fidelity [of "''  DEF( neg , 3 , -0,-0 , atom ) // x''" "\<lparr>idx = 9, stdout = []\<rparr>",
      THEN conjunct1, rule_format, OF h]
  show ?thesis
    using h c f by (intro conjI)
qed














end
